theory Spec2Isabelle
  imports Main "HOL-Library.Word"
begin

section \<open>Data model\<close>

text \<open>
  The program is the single translation unit \<^verbatim>\<open>main.cc\<close>: a \<^verbatim>\<open>LogWriter\<close> that copies the
  arguments of a \<^verbatim>\<open>LOG\<close> call into the buffer of a header, a \<^verbatim>\<open>LogFormatter<T...>\<close> per
  call site that decodes and renders them later, and a \<^verbatim>\<open>LogConsumer\<close>. The singletons
  \<^verbatim>\<open>GetLogWriter\<close> and \<^verbatim>\<open>GetLogConsumer\<close> have no data members and are left out.

  Its templates are instantiated here at the fundamental types below, on an LP64
  little-endian platform (\<^verbatim>\<open>sizeof(int) = 4\<close>, \<^verbatim>\<open>sizeof(long) = sizeof(double) = 8\<close>). A
  value of such a type is trivially copyable: \<^verbatim>\<open>memcpy\<close> copies its object
  representation, and a load through a \<^verbatim>\<open>reinterpret_cast\<close> pointer reads it back. A
  \<^verbatim>\<open>double\<close> is kept as its IEEE 754 binary64 bit pattern. Sizes and counts are
  \<^verbatim>\<open>size_t\<close> values far below \<open>2\<^sup>6\<^sup>4\<close> and are modelled as naturals.

  Undefined behaviour (a copy or a load past the end of a buffer, the use of a null
  pointer) is an error value of the model, so that every result \<open>Inr\<close> is a defined
  execution of the program.
\<close>

type_synonym byte = "8 word"

datatype ctype = TChar | TInt | TUInt | TLong | TULong | TDouble

datatype arg =
    CharArg char
  | IntArg "32 word"
  | UIntArg "32 word"
  | LongArg "64 word"
  | ULongArg "64 word"
  | DoubleArg "64 word"

fun ctype_of :: "arg \<Rightarrow> ctype" where
  "ctype_of (CharArg c) = TChar"
| "ctype_of (IntArg w) = TInt"
| "ctype_of (UIntArg w) = TUInt"
| "ctype_of (LongArg w) = TLong"
| "ctype_of (ULongArg w) = TULong"
| "ctype_of (DoubleArg w) = TDouble"

text \<open>\<^verbatim>\<open>sizeof(T)\<close>.\<close>

fun sizeof :: "ctype \<Rightarrow> nat" where
  "sizeof TChar = 1"
| "sizeof TInt = 4"
| "sizeof TUInt = 4"
| "sizeof TLong = 8"
| "sizeof TULong = 8"
| "sizeof TDouble = 8"

subsection \<open>Object representations\<close>

text \<open>The \<open>k\<close> low-order bytes of a number, least significant first, and back.\<close>

fun le_bytes :: "nat \<Rightarrow> nat \<Rightarrow> byte list" where
  "le_bytes 0 n = []"
| "le_bytes (Suc k) n = of_nat (n mod 256) # le_bytes k (n div 256)"

fun le_val :: "byte list \<Rightarrow> nat" where
  "le_val [] = 0"
| "le_val (b # bs) = unat b + 256 * le_val bs"

text \<open>The bytes \<^verbatim>\<open>memcpy(buffer, &arg, sizeof(arg))\<close> copies.\<close>

fun object_repr :: "arg \<Rightarrow> byte list" where
  "object_repr (CharArg c) = le_bytes 1 (of_char c)"
| "object_repr (IntArg w) = le_bytes 4 (unat w)"
| "object_repr (UIntArg w) = le_bytes 4 (unat w)"
| "object_repr (LongArg w) = le_bytes 8 (unat w)"
| "object_repr (ULongArg w) = le_bytes 8 (unat w)"
| "object_repr (DoubleArg w) = le_bytes 8 (unat w)"

text \<open>The value \<^verbatim>\<open>*reinterpret_cast<const Arg*>(argsData)\<close> loads from \<^verbatim>\<open>sizeof(Arg)\<close> bytes.\<close>

fun load :: "ctype \<Rightarrow> byte list \<Rightarrow> arg" where
  "load TChar bs = CharArg (char_of (le_val bs))"
| "load TInt bs = IntArg (of_nat (le_val bs))"
| "load TUInt bs = UIntArg (of_nat (le_val bs))"
| "load TLong bs = LongArg (of_nat (le_val bs))"
| "load TULong bs = ULongArg (of_nat (le_val bs))"
| "load TDouble bs = DoubleArg (of_nat (le_val bs))"

section \<open>LogWriter: the argument encoder\<close>

datatype error =
    ArityMismatch      \<comment> \<open>the \<^verbatim>\<open>static_assert\<close> of \<^verbatim>\<open>LOG\<close> fails: the program is rejected\<close>
  | BufferOverrun      \<comment> \<open>an access past the end of the buffer: undefined behaviour\<close>
  | NullPlaceholder    \<comment> \<open>\<^verbatim>\<open>strstr\<close> returned \<^verbatim>\<open>NULL\<close> and the result is used: undefined behaviour\<close>
  | NullFormatter      \<comment> \<open>a call through a null or dangling formatter pointer: undefined behaviour\<close>

text \<open>
  A \<^verbatim>\<open>char*\<close> into a buffer is the buffer's contents together with an offset.
  \<^verbatim>\<open>CopyArg\<close> copies \<^verbatim>\<open>sizeof(arg)\<close> bytes to the offset and returns the advanced pointer;
  the source has no bounds check, so a copy that does not fit runs past the end of the
  array.
\<close>

definition CopyArg :: "byte list \<Rightarrow> nat \<Rightarrow> arg \<Rightarrow> error + (byte list \<times> nat)" where
  "CopyArg mem buffer a =
     (if buffer + sizeof (ctype_of a) \<le> length mem
      then Inr (take buffer mem @ object_repr a @ drop (buffer + sizeof (ctype_of a)) mem,
                buffer + sizeof (ctype_of a))
      else Inl BufferOverrun)"

fun CopyArgs :: "byte list \<Rightarrow> nat \<Rightarrow> arg list \<Rightarrow> error + (byte list \<times> nat)" where
  "CopyArgs mem buffer [] = Inr (mem, buffer)"
| "CopyArgs mem buffer (a # as) =
     (case CopyArg mem buffer a of
        Inl e \<Rightarrow> Inl e
      | Inr (mem', buffer') \<Rightarrow> CopyArgs mem' buffer' as)"

definition GetArgSize :: "arg \<Rightarrow> nat" where
  "GetArgSize a = sizeof (ctype_of a)"

fun GetArgsSize :: "arg list \<Rightarrow> nat" where
  "GetArgsSize [] = 0"
| "GetArgsSize (a # as) = GetArgSize a + GetArgsSize as"

section \<open>Default text forms\<close>

text \<open>
  \<^verbatim>\<open>outputStream << *arg\<close> on a \<^verbatim>\<open>std::ostringstream\<close> with its default flags. A
  stream is modelled by the text written to it so far. Integers are written in decimal,
  a \<^verbatim>\<open>char\<close> as the character itself.
\<close>

text \<open>The decimal digit \<open>n\<close>, for \<open>n < 10\<close>; \<open>show_nat\<close> asks for no other.\<close>

definition digit_char :: "nat \<Rightarrow> char" where
  "digit_char n = ''0123456789'' ! n"

fun show_nat :: "nat \<Rightarrow> string" where
  "show_nat n = (if n < 10 then [digit_char n] else show_nat (n div 10) @ [digit_char (n mod 10)])"

declare show_nat.simps [simp del]

definition show_int :: "int \<Rightarrow> string" where
  "show_int i = (if i < 0 then CHR ''-'' # show_nat (nat (- i)) else show_nat (nat i))"

subsection \<open>A double, as the library prints it\<close>

text \<open>
  With default flags \<^verbatim>\<open>operator<<(double)\<close> is the \<^verbatim>\<open>printf\<close> conversion \<^verbatim>\<open>%g\<close> with
  precision 6 (C++ [facet.num.put.virtuals], C 7.21.6.1): the value is rounded to 6
  significant digits (to nearest, ties to even, on the exact binary value); with \<open>X\<close>
  the decimal exponent of the rounded value, style \<^verbatim>\<open>f\<close> is used when \<open>-4 \<le> X < 6\<close> and
  style \<^verbatim>\<open>e\<close> otherwise; trailing zeros of the fraction are removed, and the decimal
  point with them when no fraction remains.
\<close>

definition double_sign :: "64 word \<Rightarrow> bool" where
  "double_sign w = (unat w div 2 ^ 63 = 1)"

definition double_exponent :: "64 word \<Rightarrow> nat" where
  "double_exponent w = (unat w div 2 ^ 52) mod 2 ^ 11"

definition double_fraction :: "64 word \<Rightarrow> nat" where
  "double_fraction w = unat w mod 2 ^ 52"

text \<open>The magnitude of a finite double, as a fraction of two naturals.\<close>

definition double_magnitude :: "64 word \<Rightarrow> nat \<times> nat" where
  "double_magnitude w =
     (let e = double_exponent w; f = double_fraction w in
      if e = 0 then (f, 2 ^ 1074)
      else if 1075 \<le> e then ((2 ^ 52 + f) * 2 ^ (e - 1075), 1)
      else (2 ^ 52 + f, 2 ^ (1075 - e)))"

text \<open>The least \<open>k\<close> with \<open>d \<le> n * 10 ^ k\<close>, for \<open>0 < n\<close>.\<close>

function scale_up :: "nat \<Rightarrow> nat \<Rightarrow> nat" where
  "scale_up n d = (if n = 0 \<or> d \<le> n then 0 else Suc (scale_up (10 * n) d))"
  by pat_completeness auto
termination
  by (relation "measure (\<lambda>(n, d). d - n)") auto

declare scale_up.simps [simp del]

text \<open>\<open>\<lfloor>log\<^sub>1\<^sub>0 (n / d)\<rfloor>\<close>, for \<open>0 < n\<close>.\<close>

definition decimal_exponent :: "nat \<Rightarrow> nat \<Rightarrow> int" where
  "decimal_exponent n d =
     (if d \<le> n then int (length (show_nat (n div d))) - 1 else - int (scale_up n d))"

definition round_half_even :: "nat \<Rightarrow> nat \<Rightarrow> nat" where
  "round_half_even a b =
     (let q = a div b; r = a mod b in
      if 2 * r < b then q
      else if b < 2 * r then q + 1
      else if even q then q else q + 1)"

text \<open>Six significant decimal digits of \<open>n / d\<close> and the decimal exponent after rounding.\<close>

definition six_digits :: "nat \<Rightarrow> nat \<Rightarrow> nat \<times> int" where
  "six_digits n d =
     (let X = decimal_exponent n d;
          D = (if X \<le> 5 then round_half_even (n * 10 ^ nat (5 - X)) d
               else round_half_even n (d * 10 ^ nat (X - 5)))
      in if D = 10 ^ 6 then (10 ^ 5, X + 1) else (D, X))"

definition strip_zeros :: "string \<Rightarrow> string" where
  "strip_zeros s = rev (dropWhile (\<lambda>c. c = CHR ''0'') (rev s))"

definition with_point :: "string \<Rightarrow> string \<Rightarrow> string" where
  "with_point ip fp = (if strip_zeros fp = [] then ip else ip @ CHR ''.'' # strip_zeros fp)"

definition show_g :: "nat \<Rightarrow> nat \<Rightarrow> string" where
  "show_g n d =
     (let (D, X) = six_digits n d; ds = show_nat D in
      if 0 \<le> X \<and> X < 6 then with_point (take (nat X + 1) ds) (drop (nat X + 1) ds)
      else if - 4 \<le> X \<and> X < 0 then with_point ''0'' (replicate (nat (- X) - 1) CHR ''0'' @ ds)
      else with_point (take 1 ds) (drop 1 ds) @ CHR ''e'' #
           (if X < 0 then CHR ''-'' else CHR ''+'') #
           (if \<bar>X\<bar> < 10 then ''0'' else []) @ show_nat (nat \<bar>X\<bar>))"

definition show_double :: "64 word \<Rightarrow> string" where
  "show_double w =
     (if double_sign w then ''-'' else []) @
     (if double_exponent w = 2047 then (if double_fraction w = 0 then ''inf'' else ''nan'')
      else (let (n, d) = double_magnitude w in if n = 0 then ''0'' else show_g n d))"

fun text_of :: "arg \<Rightarrow> string" where
  "text_of (CharArg c) = [c]"
| "text_of (IntArg w) = show_int (sint w)"
| "text_of (UIntArg w) = show_nat (unat w)"
| "text_of (LongArg w) = show_int (sint w)"
| "text_of (ULongArg w) = show_nat (unat w)"
| "text_of (DoubleArg w) = show_double w"

section \<open>LogFormatter: decoding and rendering\<close>

text \<open>
  A \<^verbatim>\<open>LogFormatter<T...>\<close> object holds its format string; its dynamic type fixes the
  argument types \<^verbatim>\<open>T...\<close>, kept here as the field \<open>Ts\<close>. A C string is the list of its
  characters before the terminating \<^verbatim>\<open>'\0'\<close>; a pointer into it is its remaining suffix.
\<close>

record LogFormatter =
  mFormatString :: string
  Ts :: "ctype list"

text \<open>\<^verbatim>\<open>std::strstr\<close>: the offset of the first occurrence of the needle, or \<^verbatim>\<open>NULL\<close>.\<close>

fun strstr :: "string \<Rightarrow> string \<Rightarrow> nat option" where
  "strstr [] needle = (if needle = [] then Some 0 else None)"
| "strstr (c # cs) needle =
     (if take (length needle) (c # cs) = needle then Some 0
      else map_option Suc (strstr cs needle))"

text \<open>
  \<^verbatim>\<open>FormatArg<Arg>\<close> loads an \<^verbatim>\<open>Arg\<close> at \<^verbatim>\<open>argsData\<close> (byte by byte: the load need not be
  aligned), writes its text and returns the advanced pointer. A load past the end of the
  buffer is undefined.
\<close>

definition FormatArg :: "ctype \<Rightarrow> string \<Rightarrow> byte list \<Rightarrow> nat \<Rightarrow> error + (string \<times> nat)" where
  "FormatArg Arg outputStream mem argsData =
     (if argsData + sizeof Arg \<le> length mem
      then Inr (outputStream @ text_of (load Arg (take (sizeof Arg) (drop argsData mem))),
                argsData + sizeof Arg)
      else Inl BufferOverrun)"

fun Format :: "ctype list \<Rightarrow> string \<Rightarrow> string \<Rightarrow> byte list \<Rightarrow> nat \<Rightarrow> error + string" where
  "Format [] outputStream formatString mem argsData = Inr (outputStream @ formatString)"
| "Format (Arg # Args) outputStream formatString mem argsData =
     (case strstr formatString ''%'' of
        None \<Rightarrow> Inl NullPlaceholder
      | Some firstPlaceholder \<Rightarrow>
          (case FormatArg Arg (outputStream @ take firstPlaceholder formatString) mem argsData of
             Inl e \<Rightarrow> Inl e
           | Inr (outputStream', argsData') \<Rightarrow>
               Format Args outputStream' (drop (firstPlaceholder + 1) formatString) mem argsData'))"

definition Evaluate :: "LogFormatter \<Rightarrow> byte list \<Rightarrow> nat \<Rightarrow> string \<Rightarrow> error + string" where
  "Evaluate this mem argsData outputStream =
     Format (Ts this) outputStream (mFormatString this) mem argsData"

section \<open>The program state\<close>

text \<open>
  The formatter objects made by \<^verbatim>\<open>new\<close> live in a heap that only grows; an address is
  an index into it. \<^verbatim>\<open>GetNextHeader\<close>'s function-local static \<^verbatim>\<open>sHeader\<close> is the one
  record slot of the program. Every expansion of \<^verbatim>\<open>LOG\<close> declares a static pointer
  \<^verbatim>\<open>sLogFormatter\<close> of its own: a call site is its place in the program together with
  the format string and the argument types it was compiled with (a template
  instantiates the statics once per instance).
\<close>

record Header =
  mBuffer :: "byte list"
  mLogFormatter :: "nat option"

type_synonym callsite = "nat \<times> string \<times> ctype list"

record state =
  heap :: "LogFormatter list"
  sLogFormatter :: "callsite \<Rightarrow> nat option"
  sHeader :: Header

text \<open>Static initialisation: zeroed storage, null pointers.\<close>

definition init :: state where
  "init = \<lparr>heap = [], sLogFormatter = (\<lambda>site. None),
           sHeader = \<lparr>mBuffer = replicate 128 0, mLogFormatter = None\<rparr>\<rparr>"

definition CreateLogFormatter :: "ctype list \<Rightarrow> string \<Rightarrow> state \<Rightarrow> nat \<times> state" where
  "CreateLogFormatter ts formatString st =
     (length (heap st), st\<lparr>heap := heap st @ [\<lparr>mFormatString = formatString, Ts = ts\<rparr>]\<rparr>)"

definition GetNextHeader :: "state \<Rightarrow> Header" where
  "GetNextHeader st = sHeader st"

text \<open>
  \<^verbatim>\<open>GetLogBuffer\<close> binds the formatter to the header and returns \<^verbatim>\<open>header.mBuffer\<close>, the
  pointer at offset 0; \<^verbatim>\<open>sizeRequired\<close> is not looked at.
\<close>

definition GetLogBuffer :: "nat \<Rightarrow> nat \<Rightarrow> state \<Rightarrow> nat \<times> state" where
  "GetLogBuffer logFormatter sizeRequired st =
     (0, st\<lparr>sHeader := (GetNextHeader st)\<lparr>mLogFormatter := Some logFormatter\<rparr>\<rparr>)"

definition Write :: "nat \<Rightarrow> arg list \<Rightarrow> state \<Rightarrow> error + state" where
  "Write logFormatter args st =
     (let argSize = GetArgsSize args;
          (buffer, st') = GetLogBuffer logFormatter argSize st
      in case CopyArgs (mBuffer (sHeader st')) buffer args of
           Inl e \<Rightarrow> Inl e
         | Inr (mem, buffer') \<Rightarrow> Inr (st'\<lparr>sHeader := (sHeader st')\<lparr>mBuffer := mem\<rparr>\<rparr>))"

definition WriteLog :: "callsite \<Rightarrow> string \<Rightarrow> arg list \<Rightarrow> state \<Rightarrow> error + state" where
  "WriteLog logFormatter formatString args st =
     (let st' = (if sLogFormatter st logFormatter = None
                 then (let (p, st1) = CreateLogFormatter (map ctype_of args) formatString st
                       in st1\<lparr>sLogFormatter := (sLogFormatter st1)(logFormatter \<mapsto> p)\<rparr>)
                 else st)
      in case sLogFormatter st' logFormatter of
           None \<Rightarrow> Inl NullFormatter
         | Some p \<Rightarrow> Write p args st')"

definition Consume :: "state \<Rightarrow> Header \<Rightarrow> string \<Rightarrow> error + string" where
  "Consume st header outputStream =
     (case mLogFormatter header of
        None \<Rightarrow> Inl NullFormatter
      | Some p \<Rightarrow>
          if p < length (heap st) then Evaluate (heap st ! p) (mBuffer header) 0 outputStream
          else Inl NullFormatter)"

definition sizeof_args :: "arg list \<Rightarrow> nat" where
  "sizeof_args args = length args"

fun CountPlaceholders :: "string \<Rightarrow> nat" where
  "CountPlaceholders [] = 0"
| "CountPlaceholders (c # formatString) =
     (if c = CHR ''%'' then 1 else 0) + CountPlaceholders formatString"

text \<open>
  The macro \<^verbatim>\<open>LOG\<close> at the call site \<open>loc\<close>. Its \<^verbatim>\<open>static_assert\<close> is checked when the
  program is compiled: a program that fails it does not exist, which the model reports
  as \<open>Inl ArityMismatch\<close> with no state.
\<close>

definition LOG :: "nat \<Rightarrow> string \<Rightarrow> arg list \<Rightarrow> state \<Rightarrow> error + state" where
  "LOG loc formatString args st =
     (if CountPlaceholders formatString = sizeof_args args
      then WriteLog (loc, formatString, map ctype_of args) formatString args st
      else Inl ArityMismatch)"

text \<open>\<^verbatim>\<open>main\<close>, returning what it writes to \<^verbatim>\<open>std::cout\<close>.\<close>

definition main :: "error + string" where
  "main =
     (case LOG 0 ''Hello int=% char=% float=%''
             [IntArg 1, CharArg CHR ''a'', DoubleArg 0x4045266666666666] init of
        Inl e \<Rightarrow> Inl e
      | Inr st \<Rightarrow>
          (case Consume st (GetNextHeader st) [] of
             Inl e \<Rightarrow> Inl e
           | Inr outputStream \<Rightarrow> Inr (outputStream @ [CHR 0x0A])))"

section \<open>Runs of the program\<close>

text \<open>
  A run of a program is the sequence of \<^verbatim>\<open>LOG\<close> statements it executes, each at its call
  site with the values of its arguments; \<open>ConsumeNext\<close> is the consumer step of \<^verbatim>\<open>main\<close>.
\<close>

datatype call = Call nat string "arg list"

fun run :: "call list \<Rightarrow> state \<Rightarrow> error + state" where
  "run [] st = Inr st"
| "run (Call loc formatString args # calls) st =
     (case LOG loc formatString args st of
        Inl e \<Rightarrow> Inl e
      | Inr st' \<Rightarrow> run calls st')"

definition ConsumeNext :: "state \<Rightarrow> string \<Rightarrow> error + string" where
  "ConsumeNext st outputStream = Consume st (GetNextHeader st) outputStream"

text \<open>The formatter object a call site constructs.\<close>

definition descriptor_of :: "callsite \<Rightarrow> LogFormatter" where
  "descriptor_of site = \<lparr>mFormatString = fst (snd site), Ts = snd (snd site)\<rparr>"

text \<open>
  The invariant of the reachable states: every bound static points at the formatter of
  its call site, every formatter in the heap belongs to one call site, and the slot keeps
  its 128 bytes.
\<close>

definition state_inv :: "state \<Rightarrow> bool" where
  "state_inv st =
     ((\<forall>site p. sLogFormatter st site = Some p \<longrightarrow>
          p < length (heap st) \<and> heap st ! p = descriptor_of site) \<and>
      (\<forall>p < length (heap st). \<exists>site. sLogFormatter st site = Some p) \<and>
      (\<forall>s1 s2 p. sLogFormatter st s1 = Some p \<longrightarrow> sLogFormatter st s2 = Some p \<longrightarrow> s1 = s2) \<and>
      length (mBuffer (sHeader st)) = 128)"

text \<open>The state after the static of a call site has been bound, if it was null.\<close>

definition bind_site :: "callsite \<Rightarrow> state \<Rightarrow> state" where
  "bind_site site st =
     (if sLogFormatter st site = None
      then st\<lparr>heap := heap st @ [descriptor_of site],
              sLogFormatter := (sLogFormatter st)(site \<mapsto> length (heap st))\<rparr>
      else st)"

text \<open>What the consumer renders after the program has run the calls, from a fresh stream.\<close>

definition rendered :: "call list \<Rightarrow> error + string" where
  "rendered calls =
     (case run calls init of
        Inl e \<Rightarrow> Inl e
      | Inr st \<Rightarrow> ConsumeNext st [])"

text \<open>The formatter reference of the record in the slot after the calls.\<close>

definition formatterRef :: "call list \<Rightarrow> error + nat option" where
  "formatterRef calls = map_sum id (mLogFormatter \<circ> sHeader) (run calls init)"

section \<open>The straightforward formatter\<close>

text \<open>
  This definition follows the words of the specification, not the code: "directly
  formatting the arguments against the format string by a straightforward formatter",
  that is, "substituting each placeholder with the argument's text form in order", the
  literal spans between placeholders "copied verbatim". A marker with no text left is
  copied as it is.
\<close>

fun substitute :: "string \<Rightarrow> string list \<Rightarrow> string" where
  "substitute [] texts = []"
| "substitute (c # cs) texts =
     (if c = CHR ''%''
      then (case texts of [] \<Rightarrow> c # substitute cs [] | t # ts \<Rightarrow> t @ substitute cs ts)
      else c # substitute cs texts)"

definition direct_format :: "string \<Rightarrow> arg list \<Rightarrow> string" where
  "direct_format formatString args = substitute formatString (map text_of args)"

section \<open>A sink with a formatting state\<close>

text \<open>
  \<^verbatim>\<open>Consume\<close> and \<^verbatim>\<open>Evaluate\<close> write to a \<^verbatim>\<open>std::ostringstream\<close> of the caller. Above, a
  stream is the text it holds: that is a stream in the state of a default-constructed
  one, as the stream of \<^verbatim>\<open>main\<close> is. A stream also carries a formatting state, and the
  three output operations of \<^verbatim>\<open>Format\<close> and \<^verbatim>\<open>FormatArg\<close> use it as follows
  (C++ [ostream.formatted], [ostream.unformatted]):
  \<^item> \<^verbatim>\<open>outputStream << *arg\<close> and \<^verbatim>\<open>outputStream << formatString\<close> are formatted insertions:
    they insert the characters that the flags, precision, fill character and locale of
    the stream select at its current field width, and then set the field width to 0;
  \<^item> \<^verbatim>\<open>outputStream.write\<close> is an unformatted output: it neither uses nor changes the
    field width;
  \<^item> a stream that is not \<^verbatim>\<open>good()\<close> takes no output and stays as it is (its exception mask
    is empty, the default).
  No insertion changes the flags, the precision, the fill character or the locale, so
  what they select is kept as two functions of the stream: \<open>put_value w a\<close> is the text
  that inserting the value \<open>a\<close> at field width \<open>w\<close> writes, \<open>put_chars w s\<close> the text for
  the C string \<open>s\<close>.

  The functions \<open>FormatArg_on\<close>, \<open>Format_on\<close> and \<open>Evaluate_on\<close> are \<^verbatim>\<open>FormatArg\<close>, \<^verbatim>\<open>Format\<close>
  and \<^verbatim>\<open>Evaluate\<close> on such a stream. They also return the payload and the descriptor as
  the call leaves them: \<^verbatim>\<open>Evaluate\<close> is a \<^verbatim>\<open>const\<close> member function, \<^verbatim>\<open>argsData\<close> points to
  \<^verbatim>\<open>const char\<close>, and the source assigns to neither.
\<close>

record ostringstream =
  str :: string
  width :: nat
  put_value :: "nat \<Rightarrow> arg \<Rightarrow> string"
  put_chars :: "nat \<Rightarrow> string \<Rightarrow> string"
  good :: bool

definition ostream_write :: "ostringstream \<Rightarrow> string \<Rightarrow> ostringstream" where
  "ostream_write os s = (if good os then os\<lparr>str := str os @ s\<rparr> else os)"

definition insert_value :: "ostringstream \<Rightarrow> arg \<Rightarrow> ostringstream" where
  "insert_value os a =
     (if good os then os\<lparr>str := str os @ put_value os (width os) a, width := 0\<rparr> else os)"

definition insert_chars :: "ostringstream \<Rightarrow> string \<Rightarrow> ostringstream" where
  "insert_chars os s =
     (if good os then os\<lparr>str := str os @ put_chars os (width os) s, width := 0\<rparr> else os)"

text \<open>
  A default-constructed stream: empty, field width 0, decimal integers, \<^verbatim>\<open>%g\<close> with
  precision 6, padding with spaces on the left up to the field width.
\<close>

definition pad :: "nat \<Rightarrow> string \<Rightarrow> string" where
  "pad w s = replicate (w - length s) CHR '' '' @ s"

definition default_stream :: ostringstream where
  "default_stream =
     \<lparr>str = [], width = 0, put_value = (\<lambda>w a. pad w (text_of a)), put_chars = pad, good = True\<rparr>"

definition FormatArg_on ::
  "ctype \<Rightarrow> ostringstream \<Rightarrow> byte list \<Rightarrow> nat \<Rightarrow> error + (ostringstream \<times> nat)" where
  "FormatArg_on Arg outputStream mem argsData =
     (if argsData + sizeof Arg \<le> length mem
      then Inr (insert_value outputStream (load Arg (take (sizeof Arg) (drop argsData mem))),
                argsData + sizeof Arg)
      else Inl BufferOverrun)"

fun Format_on ::
  "ctype list \<Rightarrow> ostringstream \<Rightarrow> string \<Rightarrow> byte list \<Rightarrow> nat \<Rightarrow>
   error + (byte list \<times> ostringstream)" where
  "Format_on [] outputStream formatString mem argsData =
     Inr (mem, insert_chars outputStream formatString)"
| "Format_on (Arg # Args) outputStream formatString mem argsData =
     (case strstr formatString ''%'' of
        None \<Rightarrow> Inl NullPlaceholder
      | Some firstPlaceholder \<Rightarrow>
          (case FormatArg_on Arg (ostream_write outputStream (take firstPlaceholder formatString))
                  mem argsData of
             Inl e \<Rightarrow> Inl e
           | Inr (outputStream', argsData') \<Rightarrow>
               Format_on Args outputStream' (drop (firstPlaceholder + 1) formatString)
                 mem argsData'))"

definition Evaluate_on ::
  "LogFormatter \<Rightarrow> byte list \<Rightarrow> nat \<Rightarrow> ostringstream \<Rightarrow>
   error + (LogFormatter \<times> byte list \<times> ostringstream)" where
  "Evaluate_on this mem argsData outputStream =
     (case Format_on (Ts this) outputStream (mFormatString this) mem argsData of
        Inl e \<Rightarrow> Inl e
      | Inr (mem', outputStream') \<Rightarrow> Inr (this, mem', outputStream'))"

section \<open>Properties of the encoder and the decoder\<close>

lemma length_le_bytes: "length (le_bytes k n) = k"
  by (induction k arbitrary: n) simp_all

lemma le_val_le_bytes: "le_val (le_bytes k n) = n mod 256 ^ k"
proof (induction k arbitrary: n)
  case 0
  show ?case by simp
next
  case (Suc k)
  have "unat (of_nat (n mod 256) :: byte) = n mod 256"
    by (simp add: unat_of_nat)
  then show ?case
    using Suc [of "n div 256"] by (simp add: mod_mult2_eq)
qed

lemma length_object_repr: "length (object_repr a) = sizeof (ctype_of a)"
  by (cases a) (simp_all add: length_le_bytes)

lemma unat_4_bytes: "unat (w :: 32 word) mod 4294967296 = unat w"
  using unsigned_less [of w, where 'a = nat] by simp

lemma unat_8_bytes: "unat (w :: 64 word) mod 18446744073709551616 = unat w"
  using unsigned_less [of w, where 'a = nat] by simp

text \<open>A load of the bytes that were copied gives the value back.\<close>

lemma load_object_repr: "load (ctype_of a) (object_repr a) = a"
  by (cases a) (simp_all add: le_val_le_bytes unat_4_bytes unat_8_bytes del: le_bytes.simps)

lemma le_bytes_numeral:
  "le_bytes (numeral k) n = of_nat (n mod 256) # le_bytes (pred_numeral k) (n div 256)"
  by (simp only: numeral_eq_Suc [of k] le_bytes.simps)

lemma GetArgsSize_concat: "GetArgsSize args = length (concat (map object_repr args))"
  by (induction args) (simp_all add: GetArgSize_def length_object_repr)

lemma GetArgsSize_append: "GetArgsSize (xs @ ys) = GetArgsSize xs + GetArgsSize ys"
  by (induction xs) simp_all

lemma CopyArgs_fits:
  "buffer + GetArgsSize args \<le> length mem \<Longrightarrow>
   CopyArgs mem buffer args =
     Inr (take buffer mem @ concat (map object_repr args) @ drop (buffer + GetArgsSize args) mem,
          buffer + GetArgsSize args)"
proof (induction args arbitrary: mem buffer)
  case Nil
  then show ?case by simp
next
  case (Cons a as)
  let ?n = "sizeof (ctype_of a)"
  let ?mem = "take buffer mem @ object_repr a @ drop (buffer + ?n) mem"
  from Cons.prems have fit: "buffer + ?n \<le> length mem"
    and rest: "buffer + ?n + GetArgsSize as \<le> length mem"
    by (simp_all add: GetArgSize_def)
  have len: "length ?mem = length mem"
    using fit by (simp add: length_object_repr)
  have step: "CopyArg mem buffer a = Inr (?mem, buffer + ?n)"
    using fit by (simp add: CopyArg_def)
  have tk: "take (buffer + ?n) ?mem = take buffer mem @ object_repr a"
    using fit by (simp add: length_object_repr)
  have dr: "drop (buffer + ?n + GetArgsSize as) ?mem = drop (buffer + ?n + GetArgsSize as) mem"
    using fit rest by (simp add: length_object_repr add.commute)
  have "CopyArgs ?mem (buffer + ?n) as =
      Inr (take (buffer + ?n) ?mem @ concat (map object_repr as) @
           drop (buffer + ?n + GetArgsSize as) ?mem, buffer + ?n + GetArgsSize as)"
    using rest len by (intro Cons.IH) simp
  then have ih: "CopyArgs ?mem (buffer + ?n) as =
      Inr ((take buffer mem @ object_repr a) @ concat (map object_repr as) @
           drop (buffer + ?n + GetArgsSize as) mem, buffer + ?n + GetArgsSize as)"
    by (simp only: tk dr)
  have sz: "GetArgsSize (a # as) = ?n + GetArgsSize as"
    by (simp add: GetArgSize_def)
  show ?case
    unfolding CopyArgs.simps step sz using ih by (simp add: add.assoc)
qed

lemma CopyArgs_overrun:
  "buffer \<le> length mem \<Longrightarrow> length mem < buffer + GetArgsSize args \<Longrightarrow>
   CopyArgs mem buffer args = Inl BufferOverrun"
proof (induction args arbitrary: mem buffer)
  case Nil
  then show ?case by simp
next
  case (Cons a as)
  let ?n = "sizeof (ctype_of a)"
  show ?case
  proof (cases "buffer + ?n \<le> length mem")
    case False
    then show ?thesis by (simp add: CopyArg_def)
  next
    case True
    let ?mem = "take buffer mem @ object_repr a @ drop (buffer + ?n) mem"
    have len: "length ?mem = length mem"
      using True by (simp add: length_object_repr)
    have "CopyArgs ?mem (buffer + ?n) as = Inl BufferOverrun"
      using True Cons.prems len by (intro Cons.IH) (simp_all add: GetArgSize_def)
    then show ?thesis using True by (simp add: CopyArg_def)
  qed
qed

lemma FormatArg_at:
  "mem = pre @ object_repr a @ post \<Longrightarrow>
   FormatArg (ctype_of a) os mem (length pre) =
     Inr (os @ text_of a, length pre + sizeof (ctype_of a))"
  by (simp add: FormatArg_def length_object_repr load_object_repr)

lemma substitute_Nil: "substitute fmt [] = fmt"
  by (induction fmt) simp_all

lemma strstr_percent_None: "(strstr fmt ''%'' = None) = (CountPlaceholders fmt = 0)"
  by (induction fmt) simp_all

lemma strstr_percent_Some:
  "strstr fmt ''%'' = Some i \<Longrightarrow>
   CountPlaceholders fmt = Suc (CountPlaceholders (drop (Suc i) fmt)) \<and>
   substitute fmt (t # ts) = take i fmt @ t @ substitute (drop (Suc i) fmt) ts \<and>
   i < length fmt \<and> fmt ! i = CHR ''%'' \<and> CHR ''%'' \<notin> set (take i fmt)"
proof (induction fmt arbitrary: i)
  case Nil
  then show ?case by simp
next
  case (Cons c cs)
  show ?case
  proof (cases "c = CHR ''%''")
    case True
    with Cons.prems show ?thesis by simp
  next
    case False
    with Cons.prems obtain j where j: "strstr cs ''%'' = Some j" "i = Suc j"
      by auto
    from Cons.IH [OF j(1)] False j(2) show ?thesis by simp
  qed
qed

lemma Format_decodes:
  "CountPlaceholders fmt = length args \<Longrightarrow>
   mem = pre @ concat (map object_repr args) @ post \<Longrightarrow>
   Format (map ctype_of args) os fmt mem (length pre) = Inr (os @ substitute fmt (map text_of args))"
proof (induction args arbitrary: fmt os pre)
  case Nil
  then show ?case by (simp add: substitute_Nil)
next
  case (Cons a as)
  from Cons.prems(1) have "strstr fmt ''%'' \<noteq> None"
    by (simp add: strstr_percent_None)
  then obtain i where i: "strstr fmt ''%'' = Some i" by blast
  note facts = strstr_percent_Some [OF i, of "text_of a" "map text_of as"]
  from facts Cons.prems(1) have cnt: "CountPlaceholders (drop (Suc i) fmt) = length as"
    by simp
  have mem: "mem = pre @ object_repr a @ (concat (map object_repr as) @ post)"
    using Cons.prems(2) by simp
  have mem': "mem = (pre @ object_repr a) @ concat (map object_repr as) @ post"
    using Cons.prems(2) by simp
  have arg: "FormatArg (ctype_of a) (os @ take i fmt) mem (length pre) =
      Inr ((os @ take i fmt) @ text_of a, length pre + sizeof (ctype_of a))"
    by (rule FormatArg_at [OF mem])
  have "Format (map ctype_of as) ((os @ take i fmt) @ text_of a) (drop (Suc i) fmt) mem
      (length (pre @ object_repr a)) =
      Inr (((os @ take i fmt) @ text_of a) @ substitute (drop (Suc i) fmt) (map text_of as))"
    by (rule Cons.IH [OF cnt mem'])
  then show ?case
    using i arg facts by (simp add: length_object_repr)
qed

lemma FormatArg_stream:
  "FormatArg t os mem p = map_sum id (\<lambda>(txt, q). (os @ txt, q)) (FormatArg t [] mem p)"
  by (simp add: FormatArg_def)

lemma Format_stream:
  "Format ts os fmt mem p = map_sum id (\<lambda>txt. os @ txt) (Format ts [] fmt mem p)"
proof (induction ts arbitrary: os fmt p)
  case Nil
  show ?case by simp
next
  case (Cons t ts)
  show ?case
  proof (cases "strstr fmt ''%''")
    case None
    then show ?thesis by simp
  next
    case (Some i)
    show ?thesis
    proof (cases "p + sizeof t \<le> length mem")
      case False
      with Some show ?thesis by (simp add: FormatArg_def)
    next
      case True
      let ?txt = "text_of (load t (take (sizeof t) (drop p mem)))"
      have "Format ts ((os @ take i fmt) @ ?txt) (drop (Suc i) fmt) mem (p + sizeof t) =
          map_sum id (\<lambda>txt. ((os @ take i fmt) @ ?txt) @ txt) (Format ts [] (drop (Suc i) fmt) mem (p + sizeof t))"
        by (rule Cons.IH)
      moreover have "Format ts (take i fmt @ ?txt) (drop (Suc i) fmt) mem (p + sizeof t) =
          map_sum id (\<lambda>txt. (take i fmt @ ?txt) @ txt) (Format ts [] (drop (Suc i) fmt) mem (p + sizeof t))"
        by (rule Cons.IH)
      ultimately show ?thesis
        using Some True
        by (cases "Format ts [] (drop (Suc i) fmt) mem (p + sizeof t)") (simp_all add: FormatArg_def)
    qed
  qed
qed

section \<open>Properties of the program state\<close>

lemma state_inv_init: "state_inv init"
  by (simp add: state_inv_def init_def)

lemma Write_eq:
  "Write p args st =
     (if GetArgsSize args \<le> length (mBuffer (sHeader st))
      then Inr (st\<lparr>sHeader := \<lparr>mBuffer = concat (map object_repr args) @
                                  drop (GetArgsSize args) (mBuffer (sHeader st)),
                               mLogFormatter = Some p\<rparr>\<rparr>)
      else Inl BufferOverrun)"
proof (cases "GetArgsSize args \<le> length (mBuffer (sHeader st))")
  case True
  then have "CopyArgs (mBuffer (sHeader st)) 0 args =
      Inr (concat (map object_repr args) @ drop (GetArgsSize args) (mBuffer (sHeader st)),
           GetArgsSize args)"
    using CopyArgs_fits [of 0 args "mBuffer (sHeader st)"] by simp
  with True show ?thesis
    by (simp add: Write_def GetLogBuffer_def GetNextHeader_def)
next
  case False
  then have "CopyArgs (mBuffer (sHeader st)) 0 args = Inl BufferOverrun"
    by (intro CopyArgs_overrun) simp_all
  with False show ?thesis
    by (simp add: Write_def GetLogBuffer_def GetNextHeader_def)
qed

lemma LOG_eq:
  "LOG loc fmt args st =
     (if CountPlaceholders fmt = length args
      then Write (the (sLogFormatter (bind_site (loc, fmt, map ctype_of args) st)
                         (loc, fmt, map ctype_of args)))
             args (bind_site (loc, fmt, map ctype_of args) st)
      else Inl ArityMismatch)"
  by (auto simp: LOG_def WriteLog_def sizeof_args_def CreateLogFormatter_def bind_site_def
      descriptor_of_def Let_def)

lemma state_invD:
  assumes "state_inv st"
  shows "\<And>s p. sLogFormatter st s = Some p \<Longrightarrow> p < length (heap st)"
    and "\<And>s p. sLogFormatter st s = Some p \<Longrightarrow> heap st ! p = descriptor_of s"
    and "\<And>p. p < length (heap st) \<Longrightarrow> \<exists>s. sLogFormatter st s = Some p"
    and "\<And>s1 s2 p. sLogFormatter st s1 = Some p \<Longrightarrow> sLogFormatter st s2 = Some p \<Longrightarrow> s1 = s2"
    and "length (mBuffer (sHeader st)) = 128"
  using assms unfolding state_inv_def by blast+

lemma state_inv_bind_site:
  assumes "state_inv st"
  shows "state_inv (bind_site site st)"
proof (cases "sLogFormatter st site")
  case (Some p)
  then show ?thesis using assms by (simp add: bind_site_def)
next
  case None
  note D = state_invD [OF assms]
  let ?m = "(sLogFormatter st)(site \<mapsto> length (heap st))"
  let ?h = "heap st @ [descriptor_of site]"
  have eq: "bind_site site st = st\<lparr>heap := ?h, sLogFormatter := ?m\<rparr>"
    using None by (simp add: bind_site_def)
  have 1: "p < length ?h \<and> ?h ! p = descriptor_of s" if "?m s = Some p" for s p
  proof (cases "s = site")
    case True
    with that show ?thesis by auto
  next
    case False
    with that have "sLogFormatter st s = Some p" by simp
    with D(1) [of s p] D(2) [of s p] show ?thesis by (simp add: nth_append)
  qed
  have 2: "\<exists>s. ?m s = Some p" if "p < length ?h" for p
  proof (cases "p = length (heap st)")
    case True
    then have "?m site = Some p" by simp
    then show ?thesis by (rule exI)
  next
    case False
    with that have "p < length (heap st)" by simp
    then obtain s where s: "sLogFormatter st s = Some p" using D(3) by blast
    with None have "s \<noteq> site" by auto
    with s have "?m s = Some p" by simp
    then show ?thesis by (rule exI)
  qed
  have 3: "s1 = s2" if "?m s1 = Some p" "?m s2 = Some p" for s1 s2 p
  proof -
    have old: "sLogFormatter st s = Some q \<Longrightarrow> q \<noteq> length (heap st)" for s q
      using D(1) [of s q] by auto
    have "s1 = site \<Longrightarrow> s2 \<noteq> site \<Longrightarrow> False"
      using that old [of s2 p] by simp
    moreover have "s1 \<noteq> site \<Longrightarrow> s2 = site \<Longrightarrow> False"
      using that old [of s1 p] by simp
    moreover have "s1 \<noteq> site \<Longrightarrow> s2 \<noteq> site \<Longrightarrow> s1 = s2"
      using that D(4) [of s1 p s2] by simp
    ultimately show ?thesis by blast
  qed
  show ?thesis
    unfolding eq state_inv_def using 1 2 3 D(5) by (simp del: fun_upd_apply)
qed

lemma bind_site_bound:
  "\<exists>p. sLogFormatter (bind_site site st) site = Some p"
  by (cases "sLogFormatter st site") (simp_all add: bind_site_def)

lemma bind_site_header: "sHeader (bind_site site st) = sHeader st"
  by (simp add: bind_site_def)

lemma bind_site_keeps:
  "sLogFormatter st s = Some p \<Longrightarrow> sLogFormatter (bind_site site st) s = Some p"
  by (auto simp: bind_site_def)

lemma bind_site_old:
  "sLogFormatter st site = Some p \<Longrightarrow> bind_site site st = st"
  by (simp add: bind_site_def)

lemma bind_site_heap:
  "p < length (heap st) \<Longrightarrow>
   p < length (heap (bind_site site st)) \<and> heap (bind_site site st) ! p = heap st ! p"
  by (simp add: bind_site_def nth_append)

text \<open>What a successful LOG does, in a reachable state.\<close>

lemma LOG_Inr:
  assumes "state_inv st" and "LOG loc fmt args st = Inr st'"
  defines "site \<equiv> (loc, fmt, map ctype_of args)"
  shows "CountPlaceholders fmt = length args"
    and "GetArgsSize args \<le> 128"
    and "\<exists>p. sLogFormatter st' site = Some p \<and> mLogFormatter (sHeader st') = Some p \<and>
           p < length (heap st') \<and> heap st' ! p = descriptor_of site"
    and "mBuffer (sHeader st') =
           concat (map object_repr args) @ drop (GetArgsSize args) (mBuffer (sHeader st))"
    and "heap st' = heap (bind_site site st)"
    and "sLogFormatter st' = sLogFormatter (bind_site site st)"
    and "state_inv st'"
proof -
  let ?b = "bind_site site st"
  have invb: "state_inv ?b" using assms(1) by (rule state_inv_bind_site)
  obtain p where p: "sLogFormatter ?b site = Some p"
    using bind_site_bound by blast
  have len: "length (mBuffer (sHeader ?b)) = 128"
    using state_invD(5) [OF invb] .
  show cnt: "CountPlaceholders fmt = length args"
    using assms(2) by (simp add: LOG_eq split: if_splits)
  then have w: "Write p args ?b = Inr st'"
    using assms(2) p by (simp add: LOG_eq site_def)
  show fit: "GetArgsSize args \<le> 128"
    using w len by (simp add: Write_eq split: if_splits)
  have st': "st' = ?b\<lparr>sHeader := \<lparr>mBuffer = concat (map object_repr args) @
      drop (GetArgsSize args) (mBuffer (sHeader ?b)), mLogFormatter = Some p\<rparr>\<rparr>"
    using w len fit by (simp add: Write_eq)
  show "\<exists>p. sLogFormatter st' site = Some p \<and> mLogFormatter (sHeader st') = Some p \<and>
           p < length (heap st') \<and> heap st' ! p = descriptor_of site"
    using p state_invD(1,2) [OF invb p] by (simp add: st')
  show "mBuffer (sHeader st') =
           concat (map object_repr args) @ drop (GetArgsSize args) (mBuffer (sHeader st))"
    by (simp add: st' bind_site_header)
  show "heap st' = heap ?b" by (simp add: st')
  show "sLogFormatter st' = sLogFormatter ?b" by (simp add: st')
  have "length (mBuffer (sHeader st')) = 128"
    using len fit by (simp add: st' GetArgsSize_concat)
  then show "state_inv st'"
    using invb unfolding state_inv_def by (simp add: st')
qed

lemma LOG_succeeds:
  assumes "state_inv st" and "CountPlaceholders fmt = length args" and "GetArgsSize args \<le> 128"
  shows "\<exists>st'. LOG loc fmt args st = Inr st'"
proof -
  have "length (mBuffer (sHeader (bind_site (loc, fmt, map ctype_of args) st))) = 128"
    using state_invD(5) [OF state_inv_bind_site [OF assms(1)]] .
  then show ?thesis
    using assms(2,3) by (simp add: LOG_eq Write_eq)
qed

lemma LOG_overrun:
  assumes "state_inv st" and "CountPlaceholders fmt = length args" and "128 < GetArgsSize args"
  shows "LOG loc fmt args st = Inl BufferOverrun"
proof -
  have "length (mBuffer (sHeader (bind_site (loc, fmt, map ctype_of args) st))) = 128"
    using state_invD(5) [OF state_inv_bind_site [OF assms(1)]] .
  then show ?thesis
    using assms(2,3) by (simp add: LOG_eq Write_eq)
qed

lemma run_append:
  "run (xs @ ys) st = (case run xs st of Inl e \<Rightarrow> Inl e | Inr st' \<Rightarrow> run ys st')"
proof (induction xs arbitrary: st)
  case Nil
  show ?case by simp
next
  case (Cons c cs)
  obtain loc fmt args where c: "c = Call loc fmt args" by (cases c)
  show ?case using Cons.IH by (simp add: c split: sum.splits)
qed

lemma run_state_inv: "state_inv st \<Longrightarrow> run calls st = Inr st' \<Longrightarrow> state_inv st'"
proof (induction calls arbitrary: st)
  case Nil
  then show ?case by simp
next
  case (Cons c cs)
  obtain loc fmt args where c: "c = Call loc fmt args" by (cases c)
  from Cons.prems(2) obtain st1 where 1: "LOG loc fmt args st = Inr st1" and 2: "run cs st1 = Inr st'"
    by (auto simp: c split: sum.splits)
  from LOG_Inr(7) [OF Cons.prems(1) 1] have "state_inv st1" .
  then show ?case using 2 by (rule Cons.IH)
qed

lemma reachable_state_inv: "run calls init = Inr st \<Longrightarrow> state_inv st"
  using state_inv_init by (rule run_state_inv)

text \<open>Bound statics and heap cells are never changed again.\<close>

lemma LOG_keeps:
  assumes "state_inv st" and "LOG loc fmt args st = Inr st'" and "sLogFormatter st s = Some p"
  shows "sLogFormatter st' s = Some p \<and> heap st' ! p = heap st ! p"
proof -
  have "p < length (heap st)" using state_invD(1) [OF assms(1,3)] .
  then show ?thesis
    using LOG_Inr(5,6) [OF assms(1,2)] bind_site_keeps [OF assms(3)] bind_site_heap
    by simp
qed

lemma run_keeps:
  "state_inv st \<Longrightarrow> run calls st = Inr st' \<Longrightarrow> sLogFormatter st s = Some p \<Longrightarrow>
   sLogFormatter st' s = Some p \<and> heap st' ! p = heap st ! p"
proof (induction calls arbitrary: st)
  case Nil
  then show ?case by simp
next
  case (Cons c cs)
  obtain loc fmt args where c: "c = Call loc fmt args" by (cases c)
  from Cons.prems(2) obtain st1 where 1: "LOG loc fmt args st = Inr st1" and 2: "run cs st1 = Inr st'"
    by (auto simp: c split: sum.splits)
  have inv1: "state_inv st1" using LOG_Inr(7) [OF Cons.prems(1) 1] .
  have k: "sLogFormatter st1 s = Some p \<and> heap st1 ! p = heap st ! p"
    using LOG_keeps [OF Cons.prems(1) 1 Cons.prems(3)] .
  with Cons.IH [OF inv1 2] show ?case by simp
qed

text \<open>The consumer renders the record a successful LOG has left in the slot.\<close>

lemma Consume_after_LOG:
  assumes "state_inv st" and "LOG loc fmt args st = Inr st'"
  shows "Consume st' (GetNextHeader st') os = Inr (os @ substitute fmt (map text_of args))"
proof -
  let ?site = "(loc, fmt, map ctype_of args)"
  note L = LOG_Inr [OF assms]
  from L(3) obtain p where p: "mLogFormatter (sHeader st') = Some p" "p < length (heap st')"
    "heap st' ! p = descriptor_of ?site" by blast
  have "Format (map ctype_of args) os fmt (mBuffer (sHeader st')) (length ([]::byte list)) =
      Inr (os @ substitute fmt (map text_of args))"
    using L(1) by (rule Format_decodes) (simp add: L(4))
  then show ?thesis
    using p by (simp add: Consume_def GetNextHeader_def Evaluate_def descriptor_of_def)
qed

lemma show_double_42_3: "show_double 0x4045266666666666 = ''42.3''"
  by (simp add: show_double_def double_sign_def double_exponent_def double_fraction_def
      double_magnitude_def show_g_def six_digits_def decimal_exponent_def round_half_even_def
      with_point_def strip_zeros_def show_nat.simps digit_char_def Let_def)

section \<open>The claims\<close>

subsection \<open>Round trip\<close>

text \<open>
  Claim C1. For every argument sequence of the supported types whose count is the number
  of placeholder markers of the format string, encoding the arguments with \<^verbatim>\<open>CopyArgs\<close>
  (into any destination with room for them, the precondition of its \<^verbatim>\<open>memcpy\<close>) and
  evaluating the descriptor bound to the format string and the argument types on the
  encoded bytes appends to the stream exactly the text of the straightforward formatter:
  each marker replaced, in order, by the default text of the next argument, everything
  else copied.
\<close>

theorem round_trip:
  assumes "CountPlaceholders formatString = length args"
    and "buffer + GetArgsSize args \<le> length mem"
  shows "\<exists>mem'. CopyArgs mem buffer args = Inr (mem', buffer + GetArgsSize args) \<and>
           Evaluate \<lparr>mFormatString = formatString, Ts = map ctype_of args\<rparr> mem' buffer outputStream =
             Inr (outputStream @ direct_format formatString args)"
proof -
  let ?mem = "take buffer mem @ concat (map object_repr args) @ drop (buffer + GetArgsSize args) mem"
  have enc: "CopyArgs mem buffer args = Inr (?mem, buffer + GetArgsSize args)"
    using assms(2) by (rule CopyArgs_fits)
  have "length (take buffer mem) = buffer"
    using assms(2) by simp
  with Format_decodes [OF assms(1), of ?mem "take buffer mem" _ outputStream]
  have "Format (map ctype_of args) outputStream formatString ?mem buffer =
      Inr (outputStream @ substitute formatString (map text_of args))"
    by simp
  then have "Evaluate \<lparr>mFormatString = formatString, Ts = map ctype_of args\<rparr> ?mem buffer outputStream =
      Inr (outputStream @ direct_format formatString args)"
    by (simp add: Evaluate_def direct_format_def)
  with enc show ?thesis by blast
qed

theorem round_trip_witness:
  "CountPlaceholders ''x=% y=%'' = length [IntArg 7, CharArg CHR ''z''] \<and>
   0 + GetArgsSize [IntArg 7, CharArg CHR ''z''] \<le> length (replicate 8 (0 :: byte)) \<and>
   (\<exists>mem'. CopyArgs (replicate 8 0) 0 [IntArg 7, CharArg CHR ''z''] =
        Inr (mem', 0 + GetArgsSize [IntArg 7, CharArg CHR ''z'']) \<and>
      Evaluate \<lparr>mFormatString = ''x=% y=%'', Ts = map ctype_of [IntArg 7, CharArg CHR ''z'']\<rparr>
        mem' 0 ''> '' = Inr (''> '' @ direct_format ''x=% y=%'' [IntArg 7, CharArg CHR ''z''])) \<and>
   direct_format ''x=% y=%'' [IntArg 7, CharArg CHR ''z''] = ''x=7 y=z''"
proof -
  have h1: "CountPlaceholders ''x=% y=%'' = length [IntArg 7, CharArg CHR ''z'']"
    by simp
  have h2: "0 + GetArgsSize [IntArg 7, CharArg CHR ''z''] \<le> length (replicate 8 (0 :: byte))"
    by (simp add: GetArgSize_def)
  have fmt: "direct_format ''x=% y=%'' [IntArg 7, CharArg CHR ''z''] = ''x=7 y=z''"
    by (simp add: direct_format_def show_int_def show_nat.simps digit_char_def)
  from round_trip [OF h1 h2] h1 h2 fmt show ?thesis by blast
qed

subsection \<open>Determinism of Evaluate\<close>

text \<open>
  What \<^verbatim>\<open>Format\<close> does to a sink, whatever the sink holds and whatever its field width:
  it fails, the same way for all of them, or it leaves the payload as it was and appends
  to a good sink a text that depends on the field width only, leaving the width at 0.
\<close>

lemma Format_on_result:
  "(\<exists>e. \<forall>s w. Format_on ts (os\<lparr>str := s, width := w\<rparr>) fmt mem p = Inl e) \<or>
   (\<exists>f. \<forall>s w. Format_on ts (os\<lparr>str := s, width := w\<rparr>) fmt mem p =
        Inr (mem, os\<lparr>str := s @ (if good os then f w else []),
                      width := (if good os then 0 else w)\<rparr>))"
proof (induction ts arbitrary: fmt p)
  case Nil
  have "\<forall>s w. Format_on [] (os\<lparr>str := s, width := w\<rparr>) fmt mem p =
        Inr (mem, os\<lparr>str := s @ (if good os then (\<lambda>w. put_chars os w fmt) w else []),
                      width := (if good os then 0 else w)\<rparr>)"
    by (simp add: insert_chars_def)
  then show ?case
    by (intro disjI2 exI [of _ "\<lambda>w. put_chars os w fmt"])
next
  case (Cons t ts)
  show ?case
  proof (cases "strstr fmt ''%''")
    case None
    then show ?thesis by simp
  next
    case (Some i)
    show ?thesis
    proof (cases "p + sizeof t \<le> length mem")
      case False
      with Some show ?thesis by (simp add: FormatArg_on_def)
    next
      case True
      let ?a = "load t (take (sizeof t) (drop p mem))"
      have step: "Format_on (t # ts) (os\<lparr>str := s, width := w\<rparr>) fmt mem p =
          Format_on ts (os\<lparr>str := s @ (if good os then take i fmt @ put_value os w ?a else []),
                           width := (if good os then 0 else w)\<rparr>)
            (drop (Suc i) fmt) mem (p + sizeof t)" for s w
        using Some True by (simp add: FormatArg_on_def ostream_write_def insert_value_def)
      from Cons.IH [of "drop (Suc i) fmt" "p + sizeof t"] show ?thesis
      proof
        assume "\<exists>e. \<forall>s w. Format_on ts (os\<lparr>str := s, width := w\<rparr>) (drop (Suc i) fmt) mem
            (p + sizeof t) = Inl e"
        then show ?thesis using step by auto
      next
        assume "\<exists>f. \<forall>s w. Format_on ts (os\<lparr>str := s, width := w\<rparr>) (drop (Suc i) fmt) mem
            (p + sizeof t) = Inr (mem, os\<lparr>str := s @ (if good os then f w else []),
                      width := (if good os then 0 else w)\<rparr>)"
        then obtain f where f: "\<And>s w. Format_on ts (os\<lparr>str := s, width := w\<rparr>)
            (drop (Suc i) fmt) mem (p + sizeof t) =
            Inr (mem, os\<lparr>str := s @ (if good os then f w else []),
                      width := (if good os then 0 else w)\<rparr>)"
          by blast
        have "\<forall>s w. Format_on (t # ts) (os\<lparr>str := s, width := w\<rparr>) fmt mem p =
            Inr (mem, os\<lparr>str := s @ (if good os
                               then (\<lambda>w. take i fmt @ put_value os w ?a @ f 0) w else []),
                      width := (if good os then 0 else w)\<rparr>)"
          unfolding step using f by simp
        then show ?thesis
          by (intro disjI2 exI [of _ "\<lambda>w. take i fmt @ put_value os w ?a @ f 0"])
      qed
    qed
  qed
qed

lemma str_width_update:
  "os\<lparr>str := s, width := w\<rparr> = os\<lparr>width := w, str := s\<rparr>"
  by (cases os) simp

text \<open>On a stream in the default state, \<open>Evaluate_on\<close> is the \<open>Evaluate\<close> of the sections above.\<close>

lemma pad_0: "pad 0 s = s"
  by (simp add: pad_def)

lemma Format_on_default:
  "Format_on ts (default_stream\<lparr>str := s\<rparr>) fmt mem p =
     map_sum id (\<lambda>t. (mem, default_stream\<lparr>str := t\<rparr>)) (Format ts s fmt mem p)"
proof (induction ts arbitrary: s fmt p)
  case Nil
  show ?case by (simp add: insert_chars_def default_stream_def pad_0)
next
  case (Cons t ts)
  show ?case
  proof (cases "strstr fmt ''%''")
    case None
    then show ?thesis by simp
  next
    case (Some i)
    show ?thesis
    proof (cases "p + sizeof t \<le> length mem")
      case False
      with Some show ?thesis by (simp add: FormatArg_on_def FormatArg_def)
    next
      case True
      let ?v = "text_of (load t (take (sizeof t) (drop p mem)))"
      have "FormatArg_on t (ostream_write (default_stream\<lparr>str := s\<rparr>) (take i fmt)) mem p =
          Inr (default_stream\<lparr>str := (s @ take i fmt) @ ?v\<rparr>, p + sizeof t)"
        using True
        by (simp add: FormatArg_on_def ostream_write_def insert_value_def default_stream_def pad_0)
      moreover have "FormatArg t (s @ take i fmt) mem p = Inr ((s @ take i fmt) @ ?v, p + sizeof t)"
        using True by (simp add: FormatArg_def)
      ultimately show ?thesis
        using Some Cons.IH [of "(s @ take i fmt) @ ?v" "drop (Suc i) fmt" "p + sizeof t"]
        by simp
    qed
  qed
qed

lemma Evaluate_on_default:
  "Evaluate_on this mem argsData (default_stream\<lparr>str := s\<rparr>) =
     map_sum id (\<lambda>t. (this, mem, default_stream\<lparr>str := t\<rparr>)) (Evaluate this mem argsData s)"
  by (cases "Format (Ts this) s (mFormatString this) mem argsData")
    (simp_all add: Evaluate_on_def Evaluate_def Format_on_default)

lemma replicate_4: "replicate 4 x = [x, x, x, x]"
  by (simp add: numeral_eq_Suc)

text \<open>
  Claim C8, as stated, fails: the text \<^verbatim>\<open>Evaluate\<close> writes is not a function of the
  descriptor and the payload alone, and two invocations on the same payload need not
  write the same text. The first formatted insertion pads to the field width of the sink
  and resets it. On a sink with field width 5, the descriptor of \<^verbatim>\<open>"n=%"\<close> with an \<^verbatim>\<open>int\<close>
  and the payload 7 write \<^verbatim>\<open>n=    7\<close>; invoked again on the sink as the first invocation
  left it, they write \<^verbatim>\<open>n=7\<close>.
\<close>

theorem Evaluate_pure_counterexample:
  "Evaluate_on \<lparr>mFormatString = ''n=%'', Ts = [TInt]\<rparr> [7, 0, 0, 0] 0
       (default_stream\<lparr>width := 5\<rparr>) =
     Inr (\<lparr>mFormatString = ''n=%'', Ts = [TInt]\<rparr>, [7, 0, 0, 0],
          default_stream\<lparr>str := ''n=    7''\<rparr>) \<and>
   Evaluate_on \<lparr>mFormatString = ''n=%'', Ts = [TInt]\<rparr> [7, 0, 0, 0] 0
       (default_stream\<lparr>str := ''n=    7''\<rparr>) =
     Inr (\<lparr>mFormatString = ''n=%'', Ts = [TInt]\<rparr>, [7, 0, 0, 0],
          default_stream\<lparr>str := ''n=    7'' @ ''n=7''\<rparr>) \<and>
   ''n=    7'' \<noteq> ''n=7''"
  by (simp add: Evaluate_on_def FormatArg_on_def ostream_write_def insert_value_def
      insert_chars_def default_stream_def pad_def show_int_def show_nat.simps digit_char_def
      replicate_4)

text \<open>
  Claim C8, amended. \<^verbatim>\<open>Evaluate\<close> changes neither the descriptor nor the payload, and of
  the sink only its contents and its field width, which a good sink has at 0 afterwards.
  The text it appends is a function of the descriptor, the payload and the formatting
  state of the sink (what its flags, precision, fill character and locale select, and
  its field width), and does not depend on the contents of the sink. When the first
  invocation leaves the field width as it was (a field width of 0, as in a
  default-constructed sink), a second invocation on the same payload writes the same
  text; in every case the second and the third invocation write the same text. A failure
  (a missing marker, a load past the payload) does not depend on the contents or the
  field width of the sink.
\<close>

theorem Evaluate_on_sink:
  "(case Evaluate_on this mem argsData os of
      Inl e \<Rightarrow> \<forall>s w. Evaluate_on this mem argsData (os\<lparr>str := s, width := w\<rparr>) = Inl e
    | Inr (this', mem', os') \<Rightarrow>
        this' = this \<and> mem' = mem \<and>
        put_value os' = put_value os \<and> put_chars os' = put_chars os \<and> good os' = good os \<and>
        width os' = (if good os then 0 else width os) \<and>
        (\<exists>txt. str os' = str os @ txt \<and>
           (\<forall>s. Evaluate_on this mem argsData (os\<lparr>str := s\<rparr>) =
                  Inr (this, mem, os'\<lparr>str := s @ txt\<rparr>)) \<and>
           (width os' = width os \<longrightarrow>
              Evaluate_on this mem argsData os' = Inr (this, mem, os'\<lparr>str := str os' @ txt\<rparr>))) \<and>
        (\<exists>txt'. Evaluate_on this mem argsData os' = Inr (this, mem, os'\<lparr>str := str os' @ txt'\<rparr>) \<and>
           Evaluate_on this mem argsData (os'\<lparr>str := str os' @ txt'\<rparr>) =
             Inr (this, mem, os'\<lparr>str := str os' @ txt' @ txt'\<rparr>)))"
proof -
  let ?F = "\<lambda>s w. Format_on (Ts this) (os\<lparr>str := s, width := w\<rparr>) (mFormatString this) mem argsData"
  have os: "os\<lparr>str := str os, width := width os\<rparr> = os" by simp
  from Format_on_result [of "Ts this" os "mFormatString this" mem argsData]
  show ?thesis
  proof
    assume "\<exists>e. \<forall>s w. ?F s w = Inl e"
    then obtain e where e: "\<And>s w. ?F s w = Inl e" by blast
    from e [where s = "str os" and w = "width os"] have "Evaluate_on this mem argsData os = Inl e"
      by (simp add: Evaluate_on_def os)
    then show ?thesis using e by (simp add: Evaluate_on_def)
  next
    assume "\<exists>f. \<forall>s w. ?F s w =
        Inr (mem, os\<lparr>str := s @ (if good os then f w else []),
                      width := (if good os then 0 else w)\<rparr>)"
    then obtain f where f: "\<And>s w. ?F s w =
        Inr (mem, os\<lparr>str := s @ (if good os then f w else []),
                      width := (if good os then 0 else w)\<rparr>)"
      by blast
    have E: "Evaluate_on this mem argsData (os\<lparr>str := s, width := w\<rparr>) =
        Inr (this, mem, os\<lparr>str := s @ (if good os then f w else []),
                      width := (if good os then 0 else w)\<rparr>)" for s w
      by (simp add: Evaluate_on_def f)
    show ?thesis
    proof (cases "good os")
      case True
      let ?os' = "os\<lparr>str := str os @ f (width os), width := 0\<rparr>"
      have 1: "Evaluate_on this mem argsData os = Inr (this, mem, ?os')"
        using E [where s = "str os" and w = "width os"] True by (simp add: os)
      have 2: "Evaluate_on this mem argsData (os\<lparr>str := s\<rparr>) =
          Inr (this, mem, ?os'\<lparr>str := s @ f (width os)\<rparr>)" for s
        using E [where s = s and w = "width os"] True by simp
      have 3: "Evaluate_on this mem argsData (?os'\<lparr>str := s\<rparr>) =
          Inr (this, mem, ?os'\<lparr>str := s @ f 0\<rparr>)" for s
        using E [where s = s and w = 0] True by (simp add: str_width_update)
      have 4: "?os'\<lparr>str := str ?os'\<rparr> = ?os'" by simp
      have a: "\<exists>txt. str ?os' = str os @ txt \<and>
           (\<forall>s. Evaluate_on this mem argsData (os\<lparr>str := s\<rparr>) =
                  Inr (this, mem, ?os'\<lparr>str := s @ txt\<rparr>)) \<and>
           (width ?os' = width os \<longrightarrow>
              Evaluate_on this mem argsData ?os' = Inr (this, mem, ?os'\<lparr>str := str ?os' @ txt\<rparr>))"
      proof (intro exI [of _ "f (width os)"] conjI allI impI)
        show "str ?os' = str os @ f (width os)" by simp
        show "Evaluate_on this mem argsData (os\<lparr>str := s\<rparr>) =
                  Inr (this, mem, ?os'\<lparr>str := s @ f (width os)\<rparr>)" for s
          by (rule 2)
        assume "width ?os' = width os"
        then have "width os = 0" by simp
        with 3 [of "str ?os'"] show "Evaluate_on this mem argsData ?os' =
            Inr (this, mem, ?os'\<lparr>str := str ?os' @ f (width os)\<rparr>)"
          by (simp add: str_width_update)
      qed
      have b: "\<exists>txt'. Evaluate_on this mem argsData ?os' =
             Inr (this, mem, ?os'\<lparr>str := str ?os' @ txt'\<rparr>) \<and>
           Evaluate_on this mem argsData (?os'\<lparr>str := str ?os' @ txt'\<rparr>) =
             Inr (this, mem, ?os'\<lparr>str := str ?os' @ txt' @ txt'\<rparr>)"
      proof (intro exI [of _ "f 0"] conjI)
        show "Evaluate_on this mem argsData ?os' = Inr (this, mem, ?os'\<lparr>str := str ?os' @ f 0\<rparr>)"
          using 3 [of "str ?os'"] by (simp add: str_width_update)
        show "Evaluate_on this mem argsData (?os'\<lparr>str := str ?os' @ f 0\<rparr>) =
             Inr (this, mem, ?os'\<lparr>str := str ?os' @ f 0 @ f 0\<rparr>)"
          using 3 [of "str ?os' @ f 0"] by simp
      qed
      show ?thesis
        unfolding 1 using a b True by simp
    next
      case False
      have 1: "Evaluate_on this mem argsData (os\<lparr>str := s\<rparr>) = Inr (this, mem, os\<lparr>str := s\<rparr>)" for s
        using E [where s = s and w = "width os"] False by simp
      have 0: "Evaluate_on this mem argsData os = Inr (this, mem, os)"
        using 1 [of "str os"] by simp
      have "\<exists>txt'. os = os\<lparr>str := str os @ txt'\<rparr> \<and>
          os\<lparr>str := str os @ txt'\<rparr> = os\<lparr>str := str os @ txt' @ txt'\<rparr>"
        by (rule exI [of _ "[]"]) simp
      then show ?thesis
        unfolding 0 using 0 1 False by simp
    qed
  qed
qed

theorem Evaluate_on_sink_witness:
  "Evaluate_on \<lparr>mFormatString = ''n=%'', Ts = [TInt]\<rparr> [7, 0, 0, 0] 0 default_stream =
     Inr (\<lparr>mFormatString = ''n=%'', Ts = [TInt]\<rparr>, [7, 0, 0, 0], default_stream\<lparr>str := ''n=7''\<rparr>) \<and>
   width (default_stream\<lparr>str := ''n=7''\<rparr>) = width default_stream \<and>
   Evaluate_on \<lparr>mFormatString = ''n=%'', Ts = [TInt]\<rparr> [7, 0, 0, 0] 0
       (default_stream\<lparr>str := ''n=7''\<rparr>) =
     Inr (\<lparr>mFormatString = ''n=%'', Ts = [TInt]\<rparr>, [7, 0, 0, 0],
          default_stream\<lparr>str := ''n=7'' @ ''n=7''\<rparr>)"
proof -
  let ?d = "\<lparr>mFormatString = ''n=%'', Ts = [TInt]\<rparr>"
  have 1: "Evaluate_on ?d [7, 0, 0, 0] 0 default_stream =
      Inr (?d, [7, 0, 0, 0], default_stream\<lparr>str := ''n=7''\<rparr>)"
    by (simp add: Evaluate_on_def FormatArg_on_def ostream_write_def insert_value_def
        insert_chars_def default_stream_def pad_def show_int_def show_nat.simps digit_char_def)
  have 2: "width (default_stream\<lparr>str := ''n=7''\<rparr>) = width default_stream"
    by simp
  have 3: "str default_stream = []"
    by (simp add: default_stream_def)
  from Evaluate_on_sink [of ?d "[7, 0, 0, 0]" 0 default_stream] 1 2 3
  show ?thesis by auto
qed

subsection \<open>Layout of the encoding\<close>

lemma GetArgsSize_sum: "GetArgsSize args = sum_list (map (\<lambda>a. sizeof (ctype_of a)) args)"
  by (induction args) (simp_all add: GetArgSize_def)

lemma GetArgsSize_take_Suc:
  "i < length args \<Longrightarrow>
   GetArgsSize (take (Suc i) args) = GetArgsSize (take i args) + sizeof (ctype_of (args ! i))"
  by (simp add: take_Suc_conv_app_nth GetArgsSize_append GetArgSize_def)

lemma encoded_split:
  assumes "i < length args"
  shows "take buffer mem @ concat (map object_repr args) @ post =
     (take buffer mem @ concat (map object_repr (take i args))) @ object_repr (args ! i) @
     (concat (map object_repr (drop (Suc i) args)) @ post)"
proof -
  have "args = take i args @ args ! i # drop (Suc i) args"
    using assms by (simp add: id_take_nth_drop)
  then have "concat (map object_repr args) =
      concat (map object_repr (take i args)) @ object_repr (args ! i) @
      concat (map object_repr (drop (Suc i) args))"
    by (metis concat.simps(2) concat_append list.simps(9) map_append)
  then show ?thesis by simp
qed

text \<open>
  Claim C9. For every argument list, \<^verbatim>\<open>GetArgsSize\<close> is the sum of the sizes of the
  arguments, and \<^verbatim>\<open>CopyArgs\<close> into a destination with room for that many bytes changes
  exactly these bytes and returns the pointer advanced by \<^verbatim>\<open>GetArgsSize\<close>: the bytes
  before the pointer and after the encoding are as before, the encoding is the object
  representations of the arguments in order with no padding, the \<open>i\<close>-th at the offset that
  is the sum of the sizes of the arguments before it. The decoder reads each argument at
  that same offset: \<^verbatim>\<open>FormatArg\<close> there writes the argument's text and returns the offset of
  the next argument, and \<^verbatim>\<open>Evaluate\<close> of a descriptor with these argument types, started at
  the pointer the encoder was given, consumes this layout: it renders every argument of
  the list, in order, into the format string.
\<close>

theorem encoding_layout:
  assumes "buffer + GetArgsSize args \<le> length mem"
  shows "GetArgsSize args = sum_list (map (\<lambda>a. sizeof (ctype_of a)) args) \<and>
    (\<exists>mem'. CopyArgs mem buffer args = Inr (mem', buffer + GetArgsSize args) \<and>
       length mem' = length mem \<and>
       take buffer mem' = take buffer mem \<and>
       drop (buffer + GetArgsSize args) mem' = drop (buffer + GetArgsSize args) mem \<and>
       take (GetArgsSize args) (drop buffer mem') = concat (map object_repr args) \<and>
       (\<forall>i < length args.
          take (sizeof (ctype_of (args ! i))) (drop (buffer + GetArgsSize (take i args)) mem') =
            object_repr (args ! i) \<and>
          FormatArg (ctype_of (args ! i)) outputStream mem' (buffer + GetArgsSize (take i args)) =
            Inr (outputStream @ text_of (args ! i), buffer + GetArgsSize (take (Suc i) args))) \<and>
       (CountPlaceholders formatString = length args \<longrightarrow>
          Evaluate \<lparr>mFormatString = formatString, Ts = map ctype_of args\<rparr> mem' buffer
            outputStream = Inr (outputStream @ direct_format formatString args)))"
proof -
  let ?post = "drop (buffer + GetArgsSize args) mem"
  let ?mem = "take buffer mem @ concat (map object_repr args) @ ?post"
  have b: "length (take buffer mem) = buffer"
    using assms by simp
  have enc: "CopyArgs mem buffer args = Inr (?mem, buffer + GetArgsSize args)"
    using assms by (rule CopyArgs_fits)
  have len: "length ?mem = length mem"
    using assms by (simp add: GetArgsSize_concat)
  have pre: "take buffer ?mem = take buffer mem"
    using b by simp
  have post: "drop (buffer + GetArgsSize args) ?mem = ?post"
    using b by (simp add: GetArgsSize_concat)
  have mid: "take (GetArgsSize args) (drop buffer ?mem) = concat (map object_repr args)"
    using b by (simp add: GetArgsSize_concat)
  have each: "take (sizeof (ctype_of (args ! i))) (drop (buffer + GetArgsSize (take i args)) ?mem) =
            object_repr (args ! i) \<and>
          FormatArg (ctype_of (args ! i)) outputStream ?mem (buffer + GetArgsSize (take i args)) =
            Inr (outputStream @ text_of (args ! i), buffer + GetArgsSize (take (Suc i) args))"
    if i: "i < length args" for i
  proof -
    let ?pre = "take buffer mem @ concat (map object_repr (take i args))"
    let ?rest = "concat (map object_repr (drop (Suc i) args)) @ ?post"
    have split: "?mem = ?pre @ object_repr (args ! i) @ ?rest"
      using i by (rule encoded_split)
    have lp: "length ?pre = buffer + GetArgsSize (take i args)"
      using b by (simp add: GetArgsSize_concat)
    have 1: "take (sizeof (ctype_of (args ! i))) (drop (length ?pre) (?pre @ object_repr (args ! i) @ ?rest)) =
        object_repr (args ! i)"
      by (simp add: length_object_repr)
    have 2: "FormatArg (ctype_of (args ! i)) outputStream (?pre @ object_repr (args ! i) @ ?rest) (length ?pre) =
        Inr (outputStream @ text_of (args ! i), length ?pre + sizeof (ctype_of (args ! i)))"
      by (rule FormatArg_at) simp
    show ?thesis
      using 1 2 unfolding split [symmetric] lp
      by (simp add: GetArgsSize_take_Suc [OF i] add.assoc)
  qed
  have ev: "Evaluate \<lparr>mFormatString = formatString, Ts = map ctype_of args\<rparr> ?mem buffer
      outputStream = Inr (outputStream @ direct_format formatString args)"
    if cnt: "CountPlaceholders formatString = length args"
  proof -
    from Format_decodes [OF cnt, of ?mem "take buffer mem" ?post outputStream] b
    have "Format (map ctype_of args) outputStream formatString ?mem buffer =
        Inr (outputStream @ substitute formatString (map text_of args))"
      by simp
    then show ?thesis
      by (simp add: Evaluate_def direct_format_def)
  qed
  show ?thesis
    using enc len pre post mid each ev GetArgsSize_sum by blast
qed

theorem encoding_layout_witness:
  "0 + GetArgsSize [IntArg 1, CharArg CHR ''a'', LongArg 2] \<le> length (replicate 16 (0 :: byte)) \<and>
   GetArgsSize [IntArg 1, CharArg CHR ''a'', LongArg 2] = 13 \<and>
   CountPlaceholders ''i=% c=% l=%'' = length [IntArg 1, CharArg CHR ''a'', LongArg 2] \<and>
   (\<exists>mem'. CopyArgs (replicate 16 0) 0 [IntArg 1, CharArg CHR ''a'', LongArg 2] = Inr (mem', 13) \<and>
      take 13 (drop 0 mem') = [1, 0, 0, 0, 97, 2, 0, 0, 0, 0, 0, 0, 0] \<and>
      FormatArg TLong ''x'' mem' 5 = Inr (''x2'', 13) \<and>
      Evaluate \<lparr>mFormatString = ''i=% c=% l=%'', Ts = [TInt, TChar, TLong]\<rparr> mem' 0 ''x'' =
        Inr ''xi=1 c=a l=2'')"
proof -
  let ?args = "[IntArg 1, CharArg CHR ''a'', LongArg 2]"
  have h: "0 + GetArgsSize ?args \<le> length (replicate 16 (0 :: byte))"
    by (simp add: GetArgSize_def)
  have sz: "GetArgsSize ?args = 13"
    by (simp add: GetArgSize_def)
  have cnt: "CountPlaceholders ''i=% c=% l=%'' = length ?args"
    by simp
  have rep: "concat (map object_repr ?args) = [1, 0, 0, 0, 97, 2, 0, 0, 0, 0, 0, 0, 0]"
    by (simp add: le_bytes_numeral)
  have two: "text_of (LongArg 2) = ''2''"
    by (simp add: show_int_def show_nat.simps digit_char_def)
  have line: "direct_format ''i=% c=% l=%'' ?args = ''i=1 c=a l=2''"
    by (simp add: direct_format_def show_int_def show_nat.simps digit_char_def)
  from encoding_layout [OF h, where outputStream = "''x''" and formatString = "''i=% c=% l=%''"]
  obtain mem' where
    1: "CopyArgs (replicate 16 0) 0 ?args = Inr (mem', 0 + GetArgsSize ?args)" and
    2: "take (GetArgsSize ?args) (drop 0 mem') = concat (map object_repr ?args)" and
    3: "\<forall>i < length ?args.
          take (sizeof (ctype_of (?args ! i))) (drop (0 + GetArgsSize (take i ?args)) mem') =
            object_repr (?args ! i) \<and>
          FormatArg (ctype_of (?args ! i)) ''x'' mem' (0 + GetArgsSize (take i ?args)) =
            Inr (''x'' @ text_of (?args ! i), 0 + GetArgsSize (take (Suc i) ?args))" and
    4: "CountPlaceholders ''i=% c=% l=%'' = length ?args \<longrightarrow>
          Evaluate \<lparr>mFormatString = ''i=% c=% l=%'', Ts = map ctype_of ?args\<rparr> mem' 0 ''x'' =
            Inr (''x'' @ direct_format ''i=% c=% l=%'' ?args)"
    by blast
  from 3 [rule_format, of 2] have 5: "FormatArg TLong ''x'' mem' 5 = Inr (''x2'', 13)"
    using two by (simp add: GetArgSize_def show_int_def show_nat.simps digit_char_def)
  from 4 cnt line
  have 6: "Evaluate \<lparr>mFormatString = ''i=% c=% l=%'', Ts = [TInt, TChar, TLong]\<rparr> mem' 0 ''x'' =
      Inr ''xi=1 c=a l=2''"
    by simp
  from 1 2 5 6 h sz cnt rep show ?thesis by simp
qed

subsection \<open>The program's own call\<close>

text \<open>The constant of \<^verbatim>\<open>main\<close> is the double nearest to 42.3: it is within half a unit in the last place.\<close>

lemma literal_42_3:
  "double_magnitude 0x4045266666666666 = (5953195757430374, 2 ^ 47) \<and>
   \<bar>10 * 5953195757430374 - 423 * 2 ^ 47\<bar> \<le> (5 :: int)"
  by (simp add: double_magnitude_def double_exponent_def double_fraction_def)

lemma main_args_text:
  "direct_format ''Hello int=% char=% float=%''
     [IntArg 1, CharArg CHR ''a'', DoubleArg 0x4045266666666666] =
   ''Hello int=1 char=a float=42.3''"
  by (simp add: direct_format_def show_double_42_3 show_int_def show_nat.simps digit_char_def)

text \<open>
  Claim C2. The call \<^verbatim>\<open>LOG("Hello int=% char=% float=%", 1, 'a', 42.3)\<close> of \<^verbatim>\<open>main\<close>, once
  its record is consumed, renders exactly \<^verbatim>\<open>Hello int=1 char=a float=42.3\<close>; \<^verbatim>\<open>main\<close>
  prints that line.
\<close>

theorem main_renders:
  "rendered [Call 0 ''Hello int=% char=% float=%''
       [IntArg 1, CharArg CHR ''a'', DoubleArg 0x4045266666666666]] =
     Inr ''Hello int=1 char=a float=42.3'' \<and>
   main = Inr (''Hello int=1 char=a float=42.3'' @ [CHR 0x0A])"
proof -
  let ?fmt = "''Hello int=% char=% float=%''"
  let ?args = "[IntArg 1, CharArg CHR ''a'', DoubleArg 0x4045266666666666]"
  have "\<exists>st. LOG 0 ?fmt ?args init = Inr st"
    using state_inv_init by (rule LOG_succeeds) (simp_all add: GetArgSize_def)
  then obtain st where st: "LOG 0 ?fmt ?args init = Inr st" by blast
  have "Consume st (GetNextHeader st) [] = Inr ([] @ substitute ?fmt (map text_of ?args))"
    using state_inv_init st by (rule Consume_after_LOG)
  then have c: "Consume st (GetNextHeader st) [] = Inr ''Hello int=1 char=a float=42.3''"
    using main_args_text by (simp add: direct_format_def)
  show ?thesis
    using st c by (simp add: rendered_def ConsumeNext_def main_def)
qed

subsection \<open>Arguments larger than the slot\<close>

lemma CountPlaceholders_replicate: "CountPlaceholders (replicate n CHR ''%'') = n"
  by (induction n) simp_all

lemma GetArgsSize_replicate: "GetArgsSize (replicate n a) = n * sizeof (ctype_of a)"
  by (induction n) (simp_all add: GetArgSize_def)

text \<open>
  Claim C3. The write step has no capacity check: \<^verbatim>\<open>GetLogBuffer\<close> ignores
  \<^verbatim>\<open>sizeRequired\<close>. A call with seventeen \<^verbatim>\<open>double\<close> arguments (136 bytes) is accepted by
  the \<^verbatim>\<open>static_assert\<close>; its first sixteen arguments are copied and fill all 128 bytes of
  the slot, and the copy of the seventeenth runs past the end of \<^verbatim>\<open>mBuffer\<close>. Nothing is
  dropped or counted: the code does not do what the claim requires.
\<close>

theorem overflow_overruns_slot:
  "LOG 0 (replicate 17 CHR ''%'') (replicate 17 (DoubleArg 0x3FF0000000000000)) init =
     Inl BufferOverrun \<and>
   CopyArgs (mBuffer (sHeader init)) 0 (replicate 16 (DoubleArg 0x3FF0000000000000)) =
     Inr (concat (replicate 16 [0, 0, 0, 0, 0, 0, 0xF0, 0x3F]), 128) \<and>
   CopyArg (concat (replicate 16 [0, 0, 0, 0, 0, 0, 0xF0, 0x3F])) 128
     (DoubleArg 0x3FF0000000000000) = Inl BufferOverrun"
proof -
  let ?d = "DoubleArg 0x3FF0000000000000"
  have 1: "LOG 0 (replicate 17 CHR ''%'') (replicate 17 ?d) init = Inl BufferOverrun"
    using state_inv_init by (rule LOG_overrun) (simp_all add: CountPlaceholders_replicate GetArgsSize_replicate)
  have rep: "object_repr ?d = [0, 0, 0, 0, 0, 0, 0xF0, 0x3F]"
    by (simp add: le_bytes_numeral)
  have "0 + GetArgsSize (replicate 16 ?d) \<le> length (mBuffer (sHeader init))"
    by (simp add: GetArgsSize_replicate init_def)
  from CopyArgs_fits [OF this]
  have 2: "CopyArgs (mBuffer (sHeader init)) 0 (replicate 16 ?d) =
      Inr (concat (replicate 16 [0, 0, 0, 0, 0, 0, 0xF0, 0x3F]), 128)"
    by (simp add: GetArgsSize_replicate init_def rep del: object_repr.simps)
  have 3: "CopyArg (concat (replicate 16 [0, 0, 0, 0, 0, 0, 0xF0, 0x3F])) 128 ?d = Inl BufferOverrun"
    by (simp add: CopyArg_def length_concat sum_list_replicate)
  from 1 2 3 show ?thesis by blast
qed

subsection \<open>Arity\<close>

lemma CountPlaceholders_count: "CountPlaceholders fmt = count_list fmt CHR ''%''"
  by (induction fmt) simp_all

lemma WriteLog_not_arity: "WriteLog site fmt args st \<noteq> Inl ArityMismatch"
  by (simp add: WriteLog_def Write_eq Let_def CreateLogFormatter_def split: option.splits)

lemma Format_error:
  "Format ts os fmt mem p = Inl e \<Longrightarrow> e = BufferOverrun \<or> e = NullPlaceholder"
proof (induction ts arbitrary: os fmt p)
  case Nil
  then show ?case by simp
next
  case (Cons t ts)
  then show ?case
    by (auto simp: FormatArg_def split: option.splits if_splits)
qed

lemma Consume_not_arity: "Consume st header os \<noteq> Inl ArityMismatch"
  using Format_error [of "Ts (heap st ! p)" os "mFormatString (heap st ! p)" "mBuffer header" 0 ArityMismatch for p]
  by (auto simp: Consume_def Evaluate_def split: option.splits)

text \<open>
  Claim C4. \<^verbatim>\<open>LOG\<close> accepts a call exactly when the number of \<^verbatim>\<open>%\<close> markers of its format
  string is the number of its arguments. A mismatch fails the \<^verbatim>\<open>static_assert\<close>: the
  program is rejected when it is compiled, before any state or record exists, and nothing
  that runs (\<^verbatim>\<open>WriteLog\<close>, \<^verbatim>\<open>Consume\<close>) ever reports a mismatch.
\<close>

theorem arity_checked:
  "CountPlaceholders formatString = count_list formatString CHR ''%'' \<and>
   (LOG loc formatString args st = Inl ArityMismatch) =
     (count_list formatString CHR ''%'' \<noteq> length args) \<and>
   (LOG loc formatString args st = Inr st' \<longrightarrow>
      count_list formatString CHR ''%'' = length args) \<and>
   WriteLog site formatString args st \<noteq> Inl ArityMismatch \<and>
   Consume st header outputStream \<noteq> Inl ArityMismatch"
  using WriteLog_not_arity [of "(loc, formatString, map ctype_of args)" formatString args st]
  by (auto simp: CountPlaceholders_count [symmetric] LOG_def sizeof_args_def
      WriteLog_not_arity Consume_not_arity)

theorem arity_checked_witness:
  "LOG 0 ''a=% b=%'' [IntArg 5] init = Inl ArityMismatch \<and>
   count_list ''a=% b=%'' CHR ''%'' \<noteq> length [IntArg 5] \<and>
   (\<exists>st'. LOG 0 ''a=%'' [IntArg 5] init = Inr st' \<and>
      count_list ''a=%'' CHR ''%'' = length [IntArg 5])"
proof -
  have "\<exists>st'. LOG 0 ''a=%'' [IntArg 5] init = Inr st'"
    using state_inv_init by (rule LOG_succeeds) (simp_all add: GetArgSize_def)
  then obtain st' where ok: "LOG 0 ''a=%'' [IntArg 5] init = Inr st'" by blast
  have bad: "count_list ''a=% b=%'' CHR ''%'' \<noteq> length [IntArg 5]"
    by simp
  from arity_checked [of "''a=%''" 0 "[IntArg 5]" init st'] ok
  have 1: "count_list ''a=%'' CHR ''%'' = length [IntArg 5]" by blast
  from arity_checked [of "''a=% b=%''" 0 "[IntArg 5]" init] bad
  have 2: "LOG 0 ''a=% b=%'' [IntArg 5] init = Inl ArityMismatch" by blast
  from ok 1 2 bad show ?thesis by blast
qed

subsection \<open>A call with no arguments\<close>

text \<open>
  Claim C10. With no arguments the encoder computes size 0 and copies nothing, returning
  the buffer pointer as it was, and \<^verbatim>\<open>Evaluate\<close> writes the whole format string to the
  stream. In a run of the program: a call site with no placeholder markers and no
  arguments is accepted, leaves the bytes of the slot as they were, and the consumer
  renders the format string verbatim.
\<close>

theorem no_arguments:
  "GetArgsSize [] = 0 \<and>
   CopyArgs mem buffer [] = Inr (mem, buffer) \<and>
   Evaluate \<lparr>mFormatString = formatString, Ts = []\<rparr> mem argsData outputStream =
     Inr (outputStream @ formatString) \<and>
   (run calls init = Inr st \<longrightarrow> CountPlaceholders formatString = 0 \<longrightarrow>
      (\<exists>st'. LOG loc formatString [] st = Inr st' \<and>
         mBuffer (sHeader st') = mBuffer (sHeader st) \<and>
         ConsumeNext st' outputStream = Inr (outputStream @ formatString)))"
proof -
  have sys: "\<exists>st'. LOG loc formatString [] st = Inr st' \<and>
         mBuffer (sHeader st') = mBuffer (sHeader st) \<and>
         ConsumeNext st' outputStream = Inr (outputStream @ formatString)"
    if r: "run calls init = Inr st" and c: "CountPlaceholders formatString = 0"
  proof -
    have inv: "state_inv st" using r by (rule reachable_state_inv)
    have "\<exists>st'. LOG loc formatString [] st = Inr st'"
      using inv by (rule LOG_succeeds) (simp_all add: c)
    then obtain st' where l: "LOG loc formatString [] st = Inr st'" by blast
    have "mBuffer (sHeader st') = mBuffer (sHeader st)"
      using LOG_Inr(4) [OF inv l] by simp
    moreover have "ConsumeNext st' outputStream = Inr (outputStream @ formatString)"
      using Consume_after_LOG [OF inv l, of outputStream]
      by (simp add: ConsumeNext_def substitute_Nil)
    ultimately show ?thesis using l by blast
  qed
  show ?thesis
    using sys by (simp add: Evaluate_def)
qed

theorem no_arguments_witness:
  "\<exists>st. run [Call 0 ''n=%'' [IntArg 3]] init = Inr st \<and> CountPlaceholders ''done'' = 0 \<and>
     (\<exists>st'. LOG 1 ''done'' [] st = Inr st' \<and>
        mBuffer (sHeader st') = mBuffer (sHeader st) \<and>
        ConsumeNext st' ''> '' = Inr ''> done'')"
proof -
  have "\<exists>st. LOG 0 ''n=%'' [IntArg 3] init = Inr st"
    using state_inv_init by (rule LOG_succeeds) (simp_all add: GetArgSize_def)
  then obtain st where r: "run [Call 0 ''n=%'' [IntArg 3]] init = Inr st"
    by auto
  have c: "CountPlaceholders ''done'' = 0" by simp
  from no_arguments [of _ _ "''done''" _ "''> ''" "[Call 0 ''n=%'' [IntArg 3]]" st 1] r c
  show ?thesis by auto
qed

subsection \<open>Descriptors and call sites\<close>

text \<open>The record of a call references the formatter bound to the call site's static.\<close>

lemma LOG_ref:
  assumes "state_inv st" and "LOG loc fmt args st = Inr st'"
  shows "\<exists>p. sLogFormatter st' (loc, fmt, map ctype_of args) = Some p \<and>
           mLogFormatter (sHeader st') = Some p \<and> p < length (heap st') \<and>
           heap st' ! p = \<lparr>mFormatString = fmt, Ts = map ctype_of args\<rparr>"
  using LOG_Inr(3) [OF assms] by (simp add: descriptor_of_def)

text \<open>A call at a site whose static is bound constructs nothing and references that formatter.\<close>

lemma LOG_again:
  assumes "state_inv st" and "sLogFormatter st (loc, fmt, map ctype_of args) = Some p"
    and "LOG loc fmt args st = Inr st'"
  shows "mLogFormatter (sHeader st') = Some p \<and> heap st' = heap st \<and>
         sLogFormatter st' = sLogFormatter st"
proof -
  have b: "bind_site (loc, fmt, map ctype_of args) st = st"
    using assms(2) by (rule bind_site_old)
  from LOG_Inr(3,5,6) [OF assms(1,3)] show ?thesis
    using assms(2) by (auto simp: b)
qed

text \<open>Records of different call sites reference different formatters.\<close>

lemma refs_differ:
  assumes "state_inv st" and "sLogFormatter st s = Some p" and "LOG loc fmt args st = Inr st'"
    and "(loc, fmt, map ctype_of args) \<noteq> s"
  shows "mLogFormatter (sHeader st') \<noteq> Some p"
proof
  assume eq: "mLogFormatter (sHeader st') = Some p"
  from LOG_ref [OF assms(1,3)] eq
  have 1: "sLogFormatter st' (loc, fmt, map ctype_of args) = Some p" by auto
  have 2: "sLogFormatter st' s = Some p"
    using LOG_keeps [OF assms(1,3,2)] by simp
  have "state_inv st'" using LOG_Inr(7) [OF assms(1,3)] .
  from state_invD(4) [OF this 1 2] assms(4) show False by simp
qed

text \<open>
  Claim C5. In any run of the program, two calls of one call site (the same place,
  format string and argument types; any argument values, anything logged in between)
  leave records that reference the same formatter object: it was constructed by the first
  call that found the static null, holds the call site's format string and types, and
  the later call constructs nothing. A call of a different call site references a
  different formatter object.
\<close>

theorem descriptor_identity:
  assumes "run calls init = Inr st"
    and "LOG loc formatString args st = Inr st1"
    and "run later st1 = Inr st2"
  shows "\<exists>p. mLogFormatter (sHeader st1) = Some p \<and> p < length (heap st1) \<and>
          heap st1 ! p = \<lparr>mFormatString = formatString, Ts = map ctype_of args\<rparr> \<and>
          length (heap st1) \<le> Suc (length (heap st)) \<and>
          (\<forall>args' st3. map ctype_of args' = map ctype_of args \<longrightarrow>
             LOG loc formatString args' st2 = Inr st3 \<longrightarrow>
             mLogFormatter (sHeader st3) = Some p \<and> heap st3 = heap st2 \<and>
             heap st3 ! p = heap st1 ! p) \<and>
          (\<forall>loc' formatString' args' st3. loc' \<noteq> loc \<longrightarrow>
             LOG loc' formatString' args' st2 = Inr st3 \<longrightarrow>
             mLogFormatter (sHeader st3) \<noteq> Some p)"
proof -
  let ?site = "(loc, formatString, map ctype_of args)"
  have inv: "state_inv st" using assms(1) by (rule reachable_state_inv)
  have inv1: "state_inv st1" using LOG_Inr(7) [OF inv assms(2)] .
  have inv2: "state_inv st2" using inv1 assms(3) by (rule run_state_inv)
  from LOG_ref [OF inv assms(2)] obtain p where
    p: "sLogFormatter st1 ?site = Some p" "mLogFormatter (sHeader st1) = Some p"
      "p < length (heap st1)"
      "heap st1 ! p = \<lparr>mFormatString = formatString, Ts = map ctype_of args\<rparr>"
    by blast
  have grow: "length (heap st1) \<le> Suc (length (heap st))"
    using LOG_Inr(5) [OF inv assms(2)] by (simp add: bind_site_def)
  have keep: "sLogFormatter st2 ?site = Some p" "heap st2 ! p = heap st1 ! p"
    using run_keeps [OF inv1 assms(3) p(1)] by simp_all
  have same: "mLogFormatter (sHeader st3) = Some p \<and> heap st3 = heap st2 \<and>
      heap st3 ! p = heap st1 ! p"
    if "map ctype_of args' = map ctype_of args" "LOG loc formatString args' st2 = Inr st3"
    for args' st3
  proof -
    have "sLogFormatter st2 (loc, formatString, map ctype_of args') = Some p"
      using keep(1) that(1) by simp
    from LOG_again [OF inv2 this that(2)] keep(2) show ?thesis by simp
  qed
  have other: "mLogFormatter (sHeader st3) \<noteq> Some p"
    if "loc' \<noteq> loc" "LOG loc' formatString' args' st2 = Inr st3"
    for loc' formatString' args' st3
    using inv2 keep(1) that(2) by (rule refs_differ) (simp add: that(1))
  show ?thesis
    using p(2,3,4) grow same other by blast
qed

theorem descriptor_identity_witness:
  "\<exists>st1 st2. run [] init = Inr init \<and> LOG 0 ''n=%'' [IntArg 1] init = Inr st1 \<and>
     run [Call 1 ''c=%'' [CharArg CHR ''x'']] st1 = Inr st2 \<and>
     (\<exists>p. mLogFormatter (sHeader st1) = Some p \<and>
        heap st1 ! p = \<lparr>mFormatString = ''n=%'', Ts = [TInt]\<rparr> \<and>
        (\<exists>st3. LOG 0 ''n=%'' [IntArg 2] st2 = Inr st3 \<and>
           mLogFormatter (sHeader st3) = Some p \<and> heap st3 = heap st2) \<and>
        (\<exists>st3. LOG 1 ''c=%'' [CharArg CHR ''y''] st2 = Inr st3 \<and>
           mLogFormatter (sHeader st3) \<noteq> Some p))"
proof -
  have r0: "run [] init = Inr init" by simp
  have "\<exists>st1. LOG 0 ''n=%'' [IntArg 1] init = Inr st1"
    using state_inv_init by (rule LOG_succeeds) (simp_all add: GetArgSize_def)
  then obtain st1 where 1: "LOG 0 ''n=%'' [IntArg 1] init = Inr st1" by blast
  have inv1: "state_inv st1" using LOG_Inr(7) [OF state_inv_init 1] .
  have "\<exists>st2. LOG 1 ''c=%'' [CharArg CHR ''x''] st1 = Inr st2"
    using inv1 by (rule LOG_succeeds) (simp_all add: GetArgSize_def)
  then obtain st2 where 2: "run [Call 1 ''c=%'' [CharArg CHR ''x'']] st1 = Inr st2" by auto
  have inv2: "state_inv st2" using inv1 2 by (rule run_state_inv)
  have "\<exists>st3. LOG 0 ''n=%'' [IntArg 2] st2 = Inr st3"
    using inv2 by (rule LOG_succeeds) (simp_all add: GetArgSize_def)
  then obtain st3 where 3: "LOG 0 ''n=%'' [IntArg 2] st2 = Inr st3" by blast
  have "\<exists>st4. LOG 1 ''c=%'' [CharArg CHR ''y''] st2 = Inr st4"
    using inv2 by (rule LOG_succeeds) (simp_all add: GetArgSize_def)
  then obtain st4 where 4: "LOG 1 ''c=%'' [CharArg CHR ''y''] st2 = Inr st4" by blast
  from descriptor_identity [OF r0 1 2] obtain p where
    p: "mLogFormatter (sHeader st1) = Some p"
      "heap st1 ! p = \<lparr>mFormatString = ''n=%'', Ts = map ctype_of [IntArg 1]\<rparr>" and
    same: "\<forall>args' st3. map ctype_of args' = map ctype_of [IntArg 1] \<longrightarrow>
             LOG 0 ''n=%'' args' st2 = Inr st3 \<longrightarrow>
             mLogFormatter (sHeader st3) = Some p \<and> heap st3 = heap st2 \<and>
             heap st3 ! p = heap st1 ! p" and
    other: "\<forall>loc' formatString' args' st3. loc' \<noteq> 0 \<longrightarrow>
             LOG loc' formatString' args' st2 = Inr st3 \<longrightarrow>
             mLogFormatter (sHeader st3) \<noteq> Some p"
    by blast
  from same [rule_format, of "[IntArg 2]" st3] 3
  have s: "mLogFormatter (sHeader st3) = Some p \<and> heap st3 = heap st2" by simp
  from other [rule_format, of 1 "''c=%''" "[CharArg CHR ''y'']" st4] 4
  have d: "mLogFormatter (sHeader st4) \<noteq> Some p" by simp
  from r0 1 2 3 4 p s d show ?thesis by auto
qed

text \<open>
  Claim C6, as stated, fails: the statics are per call site, so two call sites with the
  same format string and the same argument types construct a formatter object each. Here
  call sites 0 and 1 both log \<^verbatim>\<open>"n=%"\<close> with an \<^verbatim>\<open>int\<close>: their records reference the
  objects at addresses 0 and 1, and the heap holds two descriptors of the one pair.
\<close>

theorem descriptor_per_pair_counterexample:
  "formatterRef [Call 0 ''n=%'' [IntArg 1]] = Inr (Some 0) \<and>
   formatterRef [Call 0 ''n=%'' [IntArg 1], Call 1 ''n=%'' [IntArg 2]] = Inr (Some 1) \<and>
   map_sum id heap (run [Call 0 ''n=%'' [IntArg 1], Call 1 ''n=%'' [IntArg 2]] init) =
     Inr [\<lparr>mFormatString = ''n=%'', Ts = [TInt]\<rparr>, \<lparr>mFormatString = ''n=%'', Ts = [TInt]\<rparr>]"
  by (simp add: formatterRef_def LOG_eq Write_eq bind_site_def descriptor_of_def init_def
      GetArgSize_def)

text \<open>
  Claim C6, amended. At most one descriptor exists per call site: in any run, every
  formatter object in the heap is bound to exactly one call site, and two calls with the
  same format string and argument types reference the same object if and only if they
  are calls of the same call site; at different call sites they reference two objects
  with equal contents.
\<close>

theorem descriptor_per_call_site:
  assumes "run calls init = Inr st"
    and "LOG loc formatString args st = Inr st1"
    and "run later st1 = Inr st2"
    and "map ctype_of args' = map ctype_of args"
    and "LOG loc' formatString args' st2 = Inr st3"
  shows "(mLogFormatter (sHeader st3) = mLogFormatter (sHeader st1)) = (loc' = loc) \<and>
    (\<exists>p q. mLogFormatter (sHeader st1) = Some p \<and> mLogFormatter (sHeader st3) = Some q \<and>
       heap st3 ! p = \<lparr>mFormatString = formatString, Ts = map ctype_of args\<rparr> \<and>
       heap st3 ! q = \<lparr>mFormatString = formatString, Ts = map ctype_of args\<rparr>) \<and>
    (\<forall>p < length (heap st3). \<exists>site. sLogFormatter st3 site = Some p \<and>
       (\<forall>site'. sLogFormatter st3 site' = Some p \<longrightarrow> site' = site))"
proof -
  let ?site = "(loc, formatString, map ctype_of args)"
  let ?site' = "(loc', formatString, map ctype_of args)"
  have inv: "state_inv st" using assms(1) by (rule reachable_state_inv)
  have inv1: "state_inv st1" using LOG_Inr(7) [OF inv assms(2)] .
  have inv2: "state_inv st2" using inv1 assms(3) by (rule run_state_inv)
  have inv3: "state_inv st3" using LOG_Inr(7) [OF inv2 assms(5)] .
  from LOG_ref [OF inv assms(2)] obtain p where
    p: "sLogFormatter st1 ?site = Some p" "mLogFormatter (sHeader st1) = Some p"
      "heap st1 ! p = \<lparr>mFormatString = formatString, Ts = map ctype_of args\<rparr>"
    by blast
  from LOG_ref [OF inv2 assms(5)] assms(4) obtain q where
    q: "sLogFormatter st3 ?site' = Some q" "mLogFormatter (sHeader st3) = Some q"
      "heap st3 ! q = \<lparr>mFormatString = formatString, Ts = map ctype_of args\<rparr>"
    by auto
  have k2: "sLogFormatter st2 ?site = Some p" "heap st2 ! p = heap st1 ! p"
    using run_keeps [OF inv1 assms(3) p(1)] by simp_all
  have k3: "sLogFormatter st3 ?site = Some p" "heap st3 ! p = heap st2 ! p"
    using LOG_keeps [OF inv2 assms(5) k2(1)] by simp_all
  have iff: "(q = p) = (loc' = loc)"
  proof
    assume "q = p"
    with state_invD(4) [OF inv3 q(1), of ?site] k3(1) show "loc' = loc" by simp
  next
    assume "loc' = loc"
    with q(1) k3(1) show "q = p" by simp
  qed
  have one: "\<exists>site. sLogFormatter st3 site = Some r \<and>
       (\<forall>site'. sLogFormatter st3 site' = Some r \<longrightarrow> site' = site)"
    if "r < length (heap st3)" for r
  proof -
    from state_invD(3) [OF inv3 that] obtain site where s: "sLogFormatter st3 site = Some r" by blast
    have "site' = site" if "sLogFormatter st3 site' = Some r" for site'
      using state_invD(4) [OF inv3 that s] .
    with s show ?thesis by blast
  qed
  show ?thesis
    using p(2,3) q(2,3) k2(2) k3(2) iff one by auto
qed

theorem descriptor_per_call_site_witness:
  "\<exists>st1 st3. run [] init = Inr init \<and> LOG 0 ''n=%'' [IntArg 1] init = Inr st1 \<and>
     run [] st1 = Inr st1 \<and> map ctype_of [IntArg 2] = map ctype_of [IntArg 1] \<and>
     LOG 1 ''n=%'' [IntArg 2] st1 = Inr st3 \<and>
     (mLogFormatter (sHeader st3) = mLogFormatter (sHeader st1)) = ((1 :: nat) = 0) \<and>
     (\<exists>p q. mLogFormatter (sHeader st1) = Some p \<and> mLogFormatter (sHeader st3) = Some q \<and>
        heap st3 ! p = \<lparr>mFormatString = ''n=%'', Ts = [TInt]\<rparr> \<and>
        heap st3 ! q = \<lparr>mFormatString = ''n=%'', Ts = [TInt]\<rparr>)"
proof -
  have r0: "run [] init = Inr init" by simp
  have "\<exists>st1. LOG 0 ''n=%'' [IntArg 1] init = Inr st1"
    using state_inv_init by (rule LOG_succeeds) (simp_all add: GetArgSize_def)
  then obtain st1 where 1: "LOG 0 ''n=%'' [IntArg 1] init = Inr st1" by blast
  have inv1: "state_inv st1" using LOG_Inr(7) [OF state_inv_init 1] .
  have r1: "run [] st1 = Inr st1" by simp
  have ty: "map ctype_of [IntArg 2] = map ctype_of [IntArg 1]" by simp
  have "\<exists>st3. LOG 1 ''n=%'' [IntArg 2] st1 = Inr st3"
    using inv1 by (rule LOG_succeeds) (simp_all add: GetArgSize_def)
  then obtain st3 where 3: "LOG 1 ''n=%'' [IntArg 2] st1 = Inr st3" by blast
  from descriptor_per_call_site [OF r0 1 r1 ty 3] r0 1 r1 ty 3
  show ?thesis by (intro exI [of _ st1] exI [of _ st3]) simp
qed

subsection \<open>The record buffer\<close>

lemma rendered_last:
  assumes "run calls init = Inr st" and "LOG loc fmt args st = Inr st'"
  shows "rendered (calls @ [Call loc fmt args]) = Inr (direct_format fmt args)"
proof -
  have inv: "state_inv st" using assms(1) by (rule reachable_state_inv)
  have "ConsumeNext st' [] = Inr (direct_format fmt args)"
    using Consume_after_LOG [OF inv assms(2), of "[]"]
    by (simp add: ConsumeNext_def direct_format_def)
  then show ?thesis
    using assms by (simp add: rendered_def run_append)
qed

text \<open>
  Claim C7, as stated, fails: the code has no buffer of four slots, no backpressure
  policy and no drop counter. \<^verbatim>\<open>GetNextHeader\<close> returns the one static header on every
  call, so each write overwrites the record before it. After five records written
  back to back by one call site, all five writes are accepted, and the consumer renders
  the fifth, not the first four.
\<close>

theorem four_slots_counterexample:
  "rendered [Call 0 ''n=%'' [IntArg 1], Call 0 ''n=%'' [IntArg 2], Call 0 ''n=%'' [IntArg 3],
             Call 0 ''n=%'' [IntArg 4], Call 0 ''n=%'' [IntArg 5]] = Inr ''n=5'' \<and>
   rendered [Call 0 ''n=%'' [IntArg 1], Call 0 ''n=%'' [IntArg 2], Call 0 ''n=%'' [IntArg 3],
             Call 0 ''n=%'' [IntArg 4], Call 0 ''n=%'' [IntArg 5]] \<noteq>
     Inr (''n=1'' @ ''n=2'' @ ''n=3'' @ ''n=4'')"
proof -
  let ?four = "[Call 0 ''n=%'' [IntArg 1], Call 0 ''n=%'' [IntArg 2], Call 0 ''n=%'' [IntArg 3],
             Call 0 ''n=%'' [IntArg 4]]"
  have ok: "\<exists>st'. LOG 0 ''n=%'' [IntArg i] st = Inr st'" if "state_inv st" for st i
    using that by (rule LOG_succeeds) (simp_all add: GetArgSize_def)
  from ok [OF state_inv_init] obtain st1 where 1: "LOG 0 ''n=%'' [IntArg 1] init = Inr st1" by blast
  from ok [OF LOG_Inr(7) [OF state_inv_init 1]]
  obtain st2 where 2: "LOG 0 ''n=%'' [IntArg 2] st1 = Inr st2" by blast
  from ok [OF LOG_Inr(7) [OF LOG_Inr(7) [OF state_inv_init 1] 2]]
  obtain st3 where 3: "LOG 0 ''n=%'' [IntArg 3] st2 = Inr st3" by blast
  from ok [OF LOG_Inr(7) [OF LOG_Inr(7) [OF LOG_Inr(7) [OF state_inv_init 1] 2] 3]]
  obtain st4 where 4: "LOG 0 ''n=%'' [IntArg 4] st3 = Inr st4" by blast
  have r: "run ?four init = Inr st4"
    using 1 2 3 4 by simp
  then have "state_inv st4" by (rule reachable_state_inv)
  from ok [OF this] obtain st5 where 5: "LOG 0 ''n=%'' [IntArg 5] st4 = Inr st5" by blast
  have "rendered (?four @ [Call 0 ''n=%'' [IntArg 5]]) = Inr (direct_format ''n=%'' [IntArg 5])"
    using r 5 by (rule rendered_last)
  moreover have "direct_format ''n=%'' [IntArg 5] = ''n=5''"
    by (simp add: direct_format_def show_int_def show_nat.simps digit_char_def)
  ultimately show ?thesis by simp
qed

text \<open>
  Claim C7, amended. The record buffer of the code is the single static header: one slot,
  with no drop counter and no backpressure policy. In any run, a call that passes the
  arity check and whose arguments fit in the 128 bytes of the slot is written, whatever
  was written before and whether or not it was consumed; it overwrites the slot, so that
  after any number of records written back to back the consumer renders exactly the
  record written last, and renders it again on every later call.
\<close>

theorem single_slot:
  assumes "run calls init = Inr st"
    and "CountPlaceholders formatString = length args"
    and "GetArgsSize args \<le> 128"
  shows "\<exists>st'. LOG loc formatString args st = Inr st' \<and>
           GetNextHeader st' =
             \<lparr>mBuffer = concat (map object_repr args) @
                         drop (GetArgsSize args) (mBuffer (GetNextHeader st)),
              mLogFormatter = sLogFormatter st' (loc, formatString, map ctype_of args)\<rparr> \<and>
           ConsumeNext st' outputStream =
             Inr (outputStream @ direct_format formatString args) \<and>
           rendered (calls @ [Call loc formatString args]) =
             Inr (direct_format formatString args)"
proof -
  have inv: "state_inv st" using assms(1) by (rule reachable_state_inv)
  from LOG_succeeds [OF inv assms(2,3)]
  obtain st' where l: "LOG loc formatString args st = Inr st'" by blast
  from LOG_Inr(3) [OF inv l] obtain p where
    p: "sLogFormatter st' (loc, formatString, map ctype_of args) = Some p"
      "mLogFormatter (sHeader st') = Some p" by blast
  have "sHeader st' = \<lparr>mBuffer = mBuffer (sHeader st'), mLogFormatter = mLogFormatter (sHeader st')\<rparr>"
    by simp
  then have h: "GetNextHeader st' =
      \<lparr>mBuffer = concat (map object_repr args) @
                  drop (GetArgsSize args) (mBuffer (GetNextHeader st)),
       mLogFormatter = sLogFormatter st' (loc, formatString, map ctype_of args)\<rparr>"
    using LOG_Inr(4) [OF inv l] p by (simp add: GetNextHeader_def)
  have c: "ConsumeNext st' outputStream = Inr (outputStream @ direct_format formatString args)"
    using Consume_after_LOG [OF inv l, of outputStream]
    by (simp add: ConsumeNext_def direct_format_def)
  have r: "rendered (calls @ [Call loc formatString args]) = Inr (direct_format formatString args)"
    using assms(1) l by (rule rendered_last)
  from l h c r show ?thesis by blast
qed

theorem single_slot_witness:
  "\<exists>st. run [Call 0 ''n=%'' [IntArg 1], Call 1 ''c=%'' [CharArg CHR ''x'']] init = Inr st \<and>
     CountPlaceholders ''n=%'' = length [IntArg 2] \<and> GetArgsSize [IntArg 2] \<le> 128 \<and>
     (\<exists>st'. LOG 0 ''n=%'' [IntArg 2] st = Inr st' \<and>
        ConsumeNext st' ''> '' = Inr ''> n=2'' \<and>
        rendered ([Call 0 ''n=%'' [IntArg 1], Call 1 ''c=%'' [CharArg CHR ''x'']] @
                  [Call 0 ''n=%'' [IntArg 2]]) = Inr ''n=2'')"
proof -
  have "\<exists>st1. LOG 0 ''n=%'' [IntArg 1] init = Inr st1"
    using state_inv_init by (rule LOG_succeeds) (simp_all add: GetArgSize_def)
  then obtain st1 where 1: "LOG 0 ''n=%'' [IntArg 1] init = Inr st1" by blast
  have inv1: "state_inv st1" using LOG_Inr(7) [OF state_inv_init 1] .
  have "\<exists>st. LOG 1 ''c=%'' [CharArg CHR ''x''] st1 = Inr st"
    using inv1 by (rule LOG_succeeds) (simp_all add: GetArgSize_def)
  then obtain st where
    r: "run [Call 0 ''n=%'' [IntArg 1], Call 1 ''c=%'' [CharArg CHR ''x'']] init = Inr st"
    using 1 by auto
  have c: "CountPlaceholders ''n=%'' = length [IntArg 2]" by simp
  have g: "GetArgsSize [IntArg 2] \<le> 128" by (simp add: GetArgSize_def)
  have d: "direct_format ''n=%'' [IntArg 2] = ''n=2''"
    by (simp add: direct_format_def show_int_def show_nat.simps digit_char_def)
  from single_slot [OF r c g, of 0 "''> ''"] r c g d show ?thesis by auto
qed

end
